theory Spec2Isabelle
  imports Main "HOL-Library.Word" "HOL-Library.Multiset" "HOL-Library.Sublist"
begin

text \<open>
  A shallow embedding of \<open>search/greedy/huffman.cc\<close>: the tree nodes live in an explicit
  heap, every function of the program is a function of the same name here, and the
  properties of the Huffman pipeline (\<open>freq\<close>, \<open>nodes\<close>, \<open>huffman\<close>, \<open>codetable\<close>,
  \<open>encode\<close>, \<open>decode\<close>) are proved about these functions.
\<close>

section \<open>Data model of huffman.cc\<close>

text \<open>
  A \<open>Node*\<close> is an address; address 0 is the null pointer. The program compares
  pointers with \<open><\<close>, so the addresses are part of the model: the order of two pointers
  is the order of their addresses (C++ leaves it unspecified for pointers to different
  objects; compilers compare the addresses).
\<close>

type_synonym ptr = nat

definition NULL :: ptr where
  "NULL = 0"

text \<open>
  \<open>struct Node { int w; char c; Node *left, *right; }\<close>. The field \<open>w\<close> is a 32-bit
  \<open>int\<close>; its additions wrap around in the model.
\<close>

record Node =
  w :: "32 word"
  c :: char
  left :: ptr
  right :: ptr

text \<open>\<open>Node::operator<\<close> compares the weight fields of two nodes (as signed integers).\<close>

definition Node_less :: "Node \<Rightarrow> Node \<Rightarrow> bool" where
  "Node_less x a = (sint (w x) < sint (w a))"

text \<open>
  The free store: the nodes allocated so far, newest first, each under its address.
  \<open>typedef vector<Node*> Nodes\<close> and \<open>typedef map<char, string> CodeTab\<close>.
\<close>

type_synonym heap = "(ptr \<times> Node) list"
type_synonym Nodes = "ptr list"
type_synonym CodeTab = "char \<rightharpoonup> string"

text \<open>
  \<open>new Node()\<close> returns an address chosen by the allocator. The allocator is a parameter
  of the model: it sees the addresses in use (newest first) and answers with the next one.
\<close>

type_synonym allocator = "ptr list \<Rightarrow> ptr"

definition fresh :: "allocator \<Rightarrow> bool" where
  "fresh alloc = (\<forall>used. alloc used \<notin> set used \<and> alloc used \<noteq> NULL)"

text \<open>
  An allocator that hands out ascending addresses, 32 apart, for running the model.
\<close>

definition bump :: allocator where
  "bump used = fold max used 0 + 32"

text \<open>
  The program has no error signalling at all: it throws nothing and returns no error code.
  What it can do besides returning a value is undefined behaviour of C++. The model stops
  there, with \<open>Inl\<close> of the kind of undefined behaviour met:
\<close>

datatype undefined_behaviour =
    BadPointer    \<comment> \<open>a null or dangling \<open>Node*\<close> is dereferenced\<close>
  | BadIndex      \<comment> \<open>\<open>ts[i]\<close> with \<open>i\<close> outside the vector\<close>
  | FrontOfEmpty  \<comment> \<open>\<open>ts.front()\<close> on an empty vector\<close>
  | ReadPastEnd   \<comment> \<open>\<open>*it\<close> with \<open>it\<close> at the end of the string\<close>

type_synonym 'a result = "undefined_behaviour + 'a"

definition new_Node :: "allocator \<Rightarrow> Node \<Rightarrow> heap \<Rightarrow> ptr \<times> heap" where
  "new_Node alloc n h = (let a = alloc (map fst h) in (a, (a, n) # h))"

definition deref :: "heap \<Rightarrow> ptr \<Rightarrow> Node option" where
  "deref h p = (if p = NULL then None else map_of h p)"

definition isleaf :: "heap \<Rightarrow> ptr \<Rightarrow> bool result" where
  "isleaf h a =
     (case deref h a of
        None \<Rightarrow> Inl BadPointer
      | Some n \<Rightarrow> Inr (left n = NULL \<and> right n = NULL))"

definition leaf :: "allocator \<Rightarrow> char \<Rightarrow> 32 word \<Rightarrow> heap \<Rightarrow> ptr \<times> heap" where
  "leaf alloc ch wt h = new_Node alloc \<lparr>w = wt, c = ch, left = NULL, right = NULL\<rparr> h"

text \<open>\<open>new Node()\<close> zero-initialises the node, so a merged node carries the character 0.\<close>

definition merge :: "allocator \<Rightarrow> ptr \<Rightarrow> ptr \<Rightarrow> heap \<Rightarrow> (ptr \<times> heap) result" where
  "merge alloc a b h =
     (case deref h a of
        None \<Rightarrow> Inl BadPointer
      | Some na \<Rightarrow>
          (case deref h b of
             None \<Rightarrow> Inl BadPointer
           | Some nb \<Rightarrow>
               Inr (new_Node alloc \<lparr>w = w na + w nb, c = CHR 0x00, left = a, right = b\<rparr> h)))"

section \<open>Tree construction\<close>

text \<open>
  \<open>ts[i]\<close> is an unchecked access. The indices \<open>n\<close> and \<open>i\<close> are \<open>int\<close>s of the program
  and (unbounded) integers here.
\<close>

definition in_range :: "Nodes \<Rightarrow> int \<Rightarrow> bool" where
  "in_range ts i = (0 \<le> i \<and> i < int (length ts))"

text \<open>\<open>std::swap(ts[a], ts[b])\<close> on two valid positions.\<close>

definition std_swap :: "Nodes \<Rightarrow> nat \<Rightarrow> nat \<Rightarrow> Nodes" where
  "std_swap ts a b = ts[a := ts ! b, b := ts ! a]"

text \<open>
  \<open>swap(ts, i, j, k)\<close>: the test \<open>ts[j] < ts[k]\<close> is between two \<open>Node*\<close>, hence between
  addresses.
\<close>

definition swap :: "Nodes \<Rightarrow> int \<Rightarrow> int \<Rightarrow> int \<Rightarrow> Nodes result" where
  "swap ts i j k =
     (if \<not> (in_range ts i \<and> in_range ts j \<and> in_range ts k) then Inl BadIndex
      else if ts ! nat j < ts ! nat k then Inr (std_swap ts (nat i) (nat k))
      else Inr (std_swap ts (nat i) (nat j)))"

text \<open>
  The inner loop \<open>for (int i = n - 3; i >= 0; --i) if (ts[i] < min(ts[n-1], ts[n-1]))
  swap(ts, i, n-1, n-2);\<close> from the current \<open>i\<close> on. Again the operands of \<open><\<close> and of
  \<open>min\<close> are pointers.
\<close>

function for_loop :: "Nodes \<Rightarrow> int \<Rightarrow> int \<Rightarrow> Nodes result" where
  "for_loop ts n i =
     (if i \<ge> 0 then
        (if \<not> (in_range ts i \<and> in_range ts (n - 1)) then Inl BadIndex
         else if ts ! nat i < min (ts ! nat (n - 1)) (ts ! nat (n - 1)) then
           (case swap ts i (n - 1) (n - 2) of
              Inl e \<Rightarrow> Inl e
            | Inr ts' \<Rightarrow> for_loop ts' n (i - 1))
         else for_loop ts n (i - 1))
      else Inr ts)"
  by pat_completeness auto
termination
  by (relation "measure (\<lambda>(ts, n, i). nat (i + 1))") auto

declare for_loop.simps [simp del]

text \<open>
  One round of the \<open>while\<close> loop of \<open>huffman\<close>: the inner loop, then
  \<open>ts[n-2] = merge(ts[n-1], ts[n-2]); ts.pop_back();\<close>.
\<close>

definition huffman_body :: "allocator \<Rightarrow> Nodes \<Rightarrow> heap \<Rightarrow> (Nodes \<times> heap) result" where
  "huffman_body alloc ts h =
     (let n = int (length ts) in
      case for_loop ts n (n - 3) of
        Inl e \<Rightarrow> Inl e
      | Inr ts1 \<Rightarrow>
          if \<not> (in_range ts1 (n - 1) \<and> in_range ts1 (n - 2)) then Inl BadIndex
          else
            (case merge alloc (ts1 ! nat (n - 1)) (ts1 ! nat (n - 2)) h of
               Inl e \<Rightarrow> Inl e
             | Inr (m, h1) \<Rightarrow> Inr (butlast (ts1[nat (n - 2) := m]), h1)))"

lemma swap_length: "swap ts i j k = Inr ts' \<Longrightarrow> length ts' = length ts"
  by (auto simp: swap_def std_swap_def split: if_splits)

lemma for_loop_length: "for_loop ts n i = Inr ts' \<Longrightarrow> length ts' = length ts"
proof (induction ts n i rule: for_loop.induct)
  case (1 ts n i)
  show ?case
  proof (cases "i \<ge> 0")
    case False
    with "1.prems" show ?thesis by (simp add: for_loop.simps[of ts n i])
  next
    case True
    note pos = this
    show ?thesis
    proof (cases "ts ! nat i < min (ts ! nat (n - 1)) (ts ! nat (n - 1))")
      case True
      with pos "1.prems" obtain ts1 where
        rng: "in_range ts i \<and> in_range ts (n - 1)" and
        sw: "swap ts i (n - 1) (n - 2) = Inr ts1" and
        rest: "for_loop ts1 n (i - 1) = Inr ts'"
        by (auto simp: for_loop.simps[of ts n i] split: if_splits sum.splits)
      from "1.IH"(1)[OF pos _ True sw rest] rng have "length ts' = length ts1" by simp
      with swap_length[OF sw] show ?thesis by simp
    next
      case False
      with pos "1.prems" have
        rng: "in_range ts i \<and> in_range ts (n - 1)" and
        rest: "for_loop ts n (i - 1) = Inr ts'"
        by (auto simp: for_loop.simps[of ts n i] split: if_splits)
      from "1.IH"(2)[OF pos _ False rest] rng show ?thesis by simp
    qed
  qed
qed

lemma huffman_body_length:
  assumes "huffman_body alloc ts h = Inr (ts', h')"
  shows "Suc (length ts') = length ts"
proof -
  let ?n = "int (length ts)"
  from assms obtain ts1 m where
    fl: "for_loop ts ?n (?n - 3) = Inr ts1" and
    rng: "in_range ts1 (?n - 1) \<and> in_range ts1 (?n - 2)" and
    ts': "ts' = butlast (ts1[nat (?n - 2) := m])"
    by (auto simp: huffman_body_def Let_def split: sum.splits if_splits)
  from for_loop_length[OF fl] have len: "length ts1 = length ts" .
  from rng len have "length ts \<ge> 2" by (simp add: in_range_def)
  with ts' len show ?thesis by simp
qed

text \<open>
  \<open>huffman\<close>: \<open>while ((n = ts.size()) > 1) { ... } return ts.front();\<close>. The heap is
  returned with the root, since the tree lives in it.
\<close>

function huffman :: "allocator \<Rightarrow> Nodes \<Rightarrow> heap \<Rightarrow> (ptr \<times> heap) result" where
  "huffman alloc ts h =
     (if int (length ts) > 1 then
        (case huffman_body alloc ts h of
           Inl e \<Rightarrow> Inl e
         | Inr (ts', h') \<Rightarrow> huffman alloc ts' h')
      else
        (case ts of
           [] \<Rightarrow> Inl FrontOfEmpty
         | p # _ \<Rightarrow> Inr (p, h)))"
  by pat_completeness auto
termination
proof (relation "measure (\<lambda>(alloc, ts, h). length ts)")
  show "wf (measure (\<lambda>(alloc, ts, h). length ts))" by simp
next
  fix alloc :: allocator and ts :: Nodes and h :: heap and x2 ts' h'
  assume "huffman_body alloc ts h = Inr x2" and "(ts', h') = x2"
  then have "Suc (length ts') = length ts"
    using huffman_body_length[of alloc ts h ts' h'] by simp
  then show "((alloc, ts', h'), (alloc, ts, h)) \<in> measure (\<lambda>(alloc, ts, h). length ts)"
    by simp
qed

declare huffman.simps [simp del]

text \<open>
  The vector and the heap after \<open>k\<close> rounds of the loop of \<open>huffman\<close> (\<open>k\<close> executions of
  its body), used to state what the loop does round by round.
\<close>

fun rounds :: "allocator \<Rightarrow> Nodes \<Rightarrow> heap \<Rightarrow> nat \<Rightarrow> (Nodes \<times> heap) result" where
  "rounds alloc ts h 0 = Inr (ts, h)"
| "rounds alloc ts h (Suc k) =
     (case rounds alloc ts h k of
        Inl e \<Rightarrow> Inl e
      | Inr (ts', h') \<Rightarrow> huffman_body alloc ts' h')"

section \<open>Histogram and leaves\<close>

text \<open>
  \<open>map<char, int>\<close> is kept as an association list in key order, the order in which the
  program iterates over it. Keys are ordered as \<open>char\<close> values; \<open>char\<close> is a signed byte
  here (as on x86-64 Linux). The counts are 32-bit \<open>int\<close>s.
\<close>

definition char_val :: "char \<Rightarrow> int" where
  "char_val ch = (let v = int (of_char ch :: nat) in if v < 128 then v else v - 256)"

text \<open>\<open>++hist[x]\<close>: a missing key is inserted with the count 0 first.\<close>

fun incr :: "char \<Rightarrow> (char \<times> 32 word) list \<Rightarrow> (char \<times> 32 word) list" where
  "incr x [] = [(x, 1)]"
| "incr x ((y, n) # hist) =
     (if x = y then (y, n + 1) # hist
      else if char_val x < char_val y then (x, 1) # (y, n) # hist
      else (y, n) # incr x hist)"

definition freq :: "string \<Rightarrow> (char \<times> 32 word) list" where
  "freq s = fold incr s []"

fun nodes_loop ::
  "allocator \<Rightarrow> (char \<times> 32 word) list \<Rightarrow> Nodes \<Rightarrow> heap \<Rightarrow> Nodes \<times> heap" where
  "nodes_loop alloc [] ns h = (ns, h)"
| "nodes_loop alloc ((ch, n) # hist) ns h =
     (case leaf alloc ch n h of (p, h1) \<Rightarrow> nodes_loop alloc hist (ns @ [p]) h1)"

definition nodes :: "allocator \<Rightarrow> (char \<times> 32 word) list \<Rightarrow> heap \<Rightarrow> Nodes \<times> heap" where
  "nodes alloc hist h = nodes_loop alloc hist [] h"

section \<open>Code table, encoder and decoder\<close>

text \<open>
  \<open>codetab\<close> follows the pointers of the heap and need not return on a heap with a cycle:
  \<open>None\<close> is "does not return", \<open>Some (Inl e)\<close> is undefined behaviour.
\<close>

partial_function (option) codetab ::
  "heap \<Rightarrow> ptr \<Rightarrow> string \<Rightarrow> CodeTab \<Rightarrow> CodeTab result option" where
  "codetab h t bits codes =
     (case isleaf h t of
        Inl e \<Rightarrow> Some (Inl e)
      | Inr lf \<Rightarrow>
          (case deref h t of
             None \<Rightarrow> Some (Inl BadPointer)
           | Some n \<Rightarrow>
               if lf then Some (Inr (codes(c n \<mapsto> bits)))
               else
                 Option.bind (codetab h (left n) (bits @ ''0'') codes)
                   (\<lambda>r. case r of
                          Inl e \<Rightarrow> Some (Inl e)
                        | Inr codes1 \<Rightarrow> codetab h (right n) (bits @ ''1'') codes1)))"

declare codetab.simps [code]

definition codetable :: "heap \<Rightarrow> ptr \<Rightarrow> CodeTab result option" where
  "codetable h t = codetab h t [] Map.empty"

text \<open>
  \<open>encode\<close>: \<open>codes[*it]\<close> on a \<open>std::map\<close> inserts the empty string under a missing key
  and yields it; \<open>codes\<close> is the function's own copy of the table.
\<close>

fun encode_loop :: "CodeTab \<Rightarrow> string \<Rightarrow> string \<Rightarrow> string" where
  "encode_loop codes [] bits = bits"
| "encode_loop codes (x # xs) bits =
     (case codes x of
        None \<Rightarrow> encode_loop (codes(x \<mapsto> [])) xs (bits @ [])
      | Some s \<Rightarrow> encode_loop codes xs (bits @ s))"

definition encode :: "CodeTab \<Rightarrow> string \<Rightarrow> string" where
  "encode codes s = encode_loop codes s []"

text \<open>
  The inner loop of \<open>decode\<close>, \<open>while (!isleaf(t)) t = '0' == *it++ ? t->left : t->right;\<close>,
  on the rest of the bit-string from \<open>it\<close> on. It returns the leaf reached and the rest.
\<close>

fun walk :: "heap \<Rightarrow> ptr \<Rightarrow> string \<Rightarrow> (ptr \<times> string) result" where
  "walk h t [] =
     (case isleaf h t of
        Inl e \<Rightarrow> Inl e
      | Inr lf \<Rightarrow> if lf then Inr (t, []) else Inl ReadPastEnd)"
| "walk h t (b # rest) =
     (case isleaf h t of
        Inl e \<Rightarrow> Inl e
      | Inr lf \<Rightarrow>
          if lf then Inr (t, b # rest)
          else
            (case deref h t of
               None \<Rightarrow> Inl BadPointer
             | Some n \<Rightarrow> walk h (if CHR ''0'' = b then left n else right n) rest))"

text \<open>
  The outer loop \<open>for (it = bits.begin(); it != bits.end();) { ...; w += t->c; }\<close>. When
  the root is a leaf no bit is consumed and the loop does not end (it appends to \<open>w\<close>
  for ever): \<open>None\<close>.
\<close>

partial_function (option) decode_loop ::
  "heap \<Rightarrow> ptr \<Rightarrow> string \<Rightarrow> string \<Rightarrow> string result option" where
  "decode_loop h root bits out =
     (if bits = [] then Some (Inr out)
      else
        (case walk h root bits of
           Inl e \<Rightarrow> Some (Inl e)
         | Inr (t, rest) \<Rightarrow>
             (case deref h t of
                None \<Rightarrow> Some (Inl BadPointer)
              | Some n \<Rightarrow> decode_loop h root rest (out @ [c n]))))"

declare decode_loop.simps [code]

definition decode :: "heap \<Rightarrow> ptr \<Rightarrow> string \<Rightarrow> string result option" where
  "decode h root bits = decode_loop h root bits []"

section \<open>Trees as values\<close>

text \<open>
  The tree that a pointer stands for in a heap: a node with two null children is a leaf,
  any other node must have two children that stand for trees themselves.
\<close>

datatype tree = Leaf "32 word" char | Inner "32 word" tree tree

inductive tree_at :: "heap \<Rightarrow> ptr \<Rightarrow> tree \<Rightarrow> bool" where
  at_leaf:
    "deref h p = Some n \<Longrightarrow> left n = NULL \<Longrightarrow> right n = NULL \<Longrightarrow>
     tree_at h p (Leaf (w n) (c n))"
| at_inner:
    "deref h p = Some n \<Longrightarrow> \<not> (left n = NULL \<and> right n = NULL) \<Longrightarrow>
     tree_at h (left n) l \<Longrightarrow> tree_at h (right n) r \<Longrightarrow>
     tree_at h p (Inner (w n) l r)"

fun weight :: "tree \<Rightarrow> 32 word" where
  "weight (Leaf wt x) = wt"
| "weight (Inner wt l r) = wt"

text \<open>The leaves from left to right, each with its symbol and weight.\<close>

fun leaves :: "tree \<Rightarrow> (char \<times> 32 word) list" where
  "leaves (Leaf wt x) = [(x, wt)]"
| "leaves (Inner wt l r) = leaves l @ leaves r"

definition symbols :: "tree \<Rightarrow> char list" where
  "symbols t = map fst (leaves t)"

text \<open>Every inner node weighs the (32-bit) sum of its two children.\<close>

fun weights_add_up :: "tree \<Rightarrow> bool" where
  "weights_add_up (Leaf wt x) = True"
| "weights_add_up (Inner wt l r) =
     (wt = weight l + weight r \<and> weights_add_up l \<and> weights_add_up r)"

text \<open>
  The same with the weights read as integers: every inner node weighs the sum of what its
  two children weigh, with no wrap-around.
\<close>

fun int_weights_add_up :: "tree \<Rightarrow> bool" where
  "int_weights_add_up (Leaf wt x) = True"
| "int_weights_add_up (Inner wt l r) =
     (sint wt = sint (weight l) + sint (weight r) \<and> int_weights_add_up l \<and> int_weights_add_up r)"

text \<open>
  The total weight of a list of leaves, as an integer; the weights are counts when none
  is negative and the total is an \<open>int\<close> of the program.
\<close>

definition total :: "(char \<times> 32 word) list \<Rightarrow> int" where
  "total ls = sum_list (map (\<lambda>e. sint (snd e)) ls)"

definition counts :: "(char \<times> 32 word) list \<Rightarrow> bool" where
  "counts ls = (list_all (\<lambda>e. 0 \<le> sint (snd e)) ls \<and> total ls < 2 ^ 31)"

text \<open>The symbol of the leaf at the end of a path of bits, if the path ends at a leaf.\<close>

fun descend :: "tree \<Rightarrow> string \<Rightarrow> char option" where
  "descend (Leaf wt x) [] = Some x"
| "descend (Leaf wt x) (b # bs) = None"
| "descend (Inner wt l r) [] = None"
| "descend (Inner wt l r) (b # bs) = descend (if CHR ''0'' = b then l else r) bs"

text \<open>
  What \<open>codetab\<close> does on such a tree: the leaves are visited from left to right, and a
  later leaf with the same symbol overwrites the entry of an earlier one.
\<close>

fun codetab_tree :: "tree \<Rightarrow> string \<Rightarrow> CodeTab \<Rightarrow> CodeTab" where
  "codetab_tree (Leaf wt x) bits codes = codes(x \<mapsto> bits)"
| "codetab_tree (Inner wt l r) bits codes =
     codetab_tree r (bits @ ''1'') (codetab_tree l (bits @ ''0'') codes)"

text \<open>The cursor stands at an inner node after the bits of a path.\<close>

fun midpath :: "tree \<Rightarrow> string \<Rightarrow> bool" where
  "midpath (Leaf wt x) bs = False"
| "midpath (Inner wt l r) [] = True"
| "midpath (Inner wt l r) (b # bs) = midpath (if CHR ''0'' = b then l else r) bs"

text \<open>What \<open>codes[x]\<close> yields in \<open>encode\<close>: the empty string for a missing key.\<close>

definition code_of :: "CodeTab \<Rightarrow> char \<Rightarrow> string" where
  "code_of codes x = (case codes x of None \<Rightarrow> [] | Some s \<Rightarrow> s)"

text \<open>How \<open>decode\<close> reads a character of the bit-string: anything but \<open>'0'\<close> as \<open>'1'\<close>.\<close>

definition as_bit :: "char \<Rightarrow> char" where
  "as_bit b = (if CHR ''0'' = b then CHR ''0'' else CHR ''1'')"

text \<open>Weighted path length: the sum over the leaves of weight times depth.\<close>

fun cost_from :: "int \<Rightarrow> tree \<Rightarrow> int" where
  "cost_from d (Leaf wt x) = sint wt * d"
| "cost_from d (Inner wt l r) = cost_from (d + 1) l + cost_from (d + 1) r"

definition cost :: "tree \<Rightarrow> int" where
  "cost t = cost_from 0 t"

text \<open>The leaves a vector of pointers names in a heap, as symbol and weight.\<close>

definition leaf_fields :: "heap \<Rightarrow> ptr \<Rightarrow> (char \<times> 32 word) list" where
  "leaf_fields h p = (case deref h p of None \<Rightarrow> [] | Some n \<Rightarrow> [(c n, w n)])"

definition input_leaves :: "heap \<Rightarrow> Nodes \<Rightarrow> (char \<times> 32 word) list" where
  "input_leaves h ts = concat (map (leaf_fields h) ts)"

text \<open>A heap keeps the nodes of another one.\<close>

definition extends :: "heap \<Rightarrow> heap \<Rightarrow> bool" where
  "extends h h' = (\<forall>p n. deref h p = Some n \<longrightarrow> deref h' p = Some n)"

text \<open>The leaves of a list of trees, as a multiset.\<close>

definition all_leaves :: "tree list \<Rightarrow> (char \<times> 32 word) multiset" where
  "all_leaves tsA = sum_mset (image_mset (\<lambda>u. mset (leaves u)) (mset tsA))"

section \<open>Examples\<close>

text \<open>
  A running example: the heap and the vector \<open>[32, 64, 96]\<close> that \<open>nodes(freq("aaabbc"))\<close>
  builds with the allocator \<open>bump\<close> (see \<open>nodes_abc\<close>).
\<close>

definition abc_heap :: heap where
  "abc_heap =
     [(96, \<lparr>w = 1, c = CHR ''c'', left = NULL, right = NULL\<rparr>),
      (64, \<lparr>w = 2, c = CHR ''b'', left = NULL, right = NULL\<rparr>),
      (32, \<lparr>w = 3, c = CHR ''a'', left = NULL, right = NULL\<rparr>)]"

text \<open>
  The same three leaves at other addresses (\<open>a\<close> highest), the heap after
  \<open>huffman\<close> has run on the example, and the tree its root stands for.
\<close>

definition cba_heap :: heap where
  "cba_heap =
     [(96, \<lparr>w = 3, c = CHR ''a'', left = NULL, right = NULL\<rparr>),
      (64, \<lparr>w = 2, c = CHR ''b'', left = NULL, right = NULL\<rparr>),
      (32, \<lparr>w = 1, c = CHR ''c'', left = NULL, right = NULL\<rparr>)]"

definition abc_final :: heap where
  "abc_final =
     (160, \<lparr>w = 6, c = CHR 0x00, left = 128, right = 96\<rparr>) #
     (128, \<lparr>w = 5, c = CHR 0x00, left = 32, right = 64\<rparr>) # abc_heap"

definition abc_tree :: tree where
  "abc_tree = Inner 6 (Inner 5 (Leaf 3 CHR ''a'') (Leaf 2 CHR ''b'')) (Leaf 1 CHR ''c'')"

text \<open>The heap after \<open>huffman(nodes(freq("ab")))\<close> with \<open>bump\<close>; its root is at 96.\<close>

definition ab_heap :: heap where
  "ab_heap =
     [(96, \<lparr>w = 2, c = CHR 0x00, left = 64, right = 32\<rparr>),
      (64, \<lparr>w = 1, c = CHR ''b'', left = NULL, right = NULL\<rparr>),
      (32, \<lparr>w = 1, c = CHR ''a'', left = NULL, right = NULL\<rparr>)]"

text \<open>The heaps that \<open>nodes(freq("a"))\<close> and \<open>nodes(freq("aaa"))\<close> build with \<open>bump\<close>.\<close>

definition a_heap :: heap where
  "a_heap = [(32, \<lparr>w = 1, c = CHR ''a'', left = NULL, right = NULL\<rparr>)]"

definition aaa_heap :: heap where
  "aaa_heap = [(32, \<lparr>w = 3, c = CHR ''a'', left = NULL, right = NULL\<rparr>)]"

section \<open>The heap and the allocator\<close>


lemma fold_max_ge: "m \<le> fold max used (m::nat)"
  by (induction used arbitrary: m) (auto intro: order_trans[OF max.cobounded2])

lemma fold_max_mem: "x \<in> set used \<Longrightarrow> x \<le> fold max used (m::nat)"
proof (induction used arbitrary: m)
  case Nil then show ?case by simp
next
  case (Cons y ys)
  show ?case
  proof (cases "x = y")
    case True
    have "max y m \<le> fold max ys (max y m)" by (rule fold_max_ge)
    with True show ?thesis by simp
  next
    case False
    with Cons show ?thesis by simp
  qed
qed

lemma bump_fresh: "fresh bump"
  unfolding fresh_def bump_def NULL_def
proof (intro allI conjI)
  fix used :: "ptr list"
  show "fold max used 0 + 32 \<notin> set used"
  proof
    assume "fold max used 0 + 32 \<in> set used"
    from fold_max_mem[OF this, of 0] show False by simp
  qed
  show "fold max used 0 + 32 \<noteq> 0" by simp
qed

lemma deref_Some_dom: "deref h p = Some n \<Longrightarrow> p \<in> set (map fst h) \<and> p \<noteq> NULL"
  by (auto simp: deref_def dest: map_of_SomeD split: if_splits intro: rev_image_eqI)

text \<open>
  A fresh address is not null and names no node yet, so allocation keeps every node.
\<close>

lemma new_Node_deref:
  assumes "fresh alloc" "new_Node alloc n h = (a, h')"
  shows "deref h' a = Some n" and "extends h h'" and "a \<noteq> NULL"
proof -
  from assms(2) have a: "a = alloc (map fst h)" and h': "h' = (a, n) # h"
    by (auto simp: new_Node_def Let_def)
  from assms(1) have "alloc (map fst h) \<notin> set (map fst h) \<and> alloc (map fst h) \<noteq> NULL"
    unfolding fresh_def by blast
  with a have nn: "a \<noteq> NULL" and nin: "a \<notin> set (map fst h)"
    by simp_all
  show "a \<noteq> NULL" by fact
  from nn h' show "deref h' a = Some n" by (simp add: deref_def)
  show "extends h h'"
    unfolding extends_def
  proof (intro allI impI)
    fix p m assume d: "deref h p = Some m"
    from deref_Some_dom[OF d] nin have "p \<noteq> a" by auto
    with d h' show "deref h' p = Some m" by (auto simp: deref_def split: if_splits)
  qed
qed

lemma extends_refl: "extends h h"
  by (simp add: extends_def)

lemma extends_trans: "extends h h1 \<Longrightarrow> extends h1 h2 \<Longrightarrow> extends h h2"
  by (simp add: extends_def)

lemma tree_at_extends: "tree_at h p t \<Longrightarrow> extends h h' \<Longrightarrow> tree_at h' p t"
proof (induction rule: tree_at.induct)
  case (at_leaf h p n)
  then have "deref h' p = Some n" by (simp add: extends_def)
  with at_leaf show ?case by (auto intro: tree_at.at_leaf)
next
  case (at_inner h p n l r)
  then have "deref h' p = Some n" by (simp add: extends_def)
  with at_inner show ?case by (auto intro: tree_at.at_inner)
qed

lemma tree_at_deref: "tree_at h p t \<Longrightarrow> \<exists>n. deref h p = Some n \<and> weight t = w n"
  by (induction rule: tree_at.induct) auto

text \<open>
  \<open>merge\<close> of two pointers to trees returns a pointer to the tree with these two
  children, left and right in the order of the arguments.
\<close>

lemma merge_tree:
  assumes fr: "fresh alloc" and a: "tree_at h a ta" and b: "tree_at h b tb"
  shows "\<exists>m h'. merge alloc a b h = Inr (m, h') \<and> extends h h' \<and>
           tree_at h' m (Inner (weight ta + weight tb) ta tb)"
proof -
  from tree_at_deref[OF a] obtain na where na: "deref h a = Some na" "weight ta = w na" by blast
  from tree_at_deref[OF b] obtain nb where nb: "deref h b = Some nb" "weight tb = w nb" by blast
  let ?n = "\<lparr>w = w na + w nb, c = CHR 0x00, left = a, right = b\<rparr>"
  obtain m h' where new: "new_Node alloc ?n h = (m, h')" by (cases "new_Node alloc ?n h")
  from na nb new have mg: "merge alloc a b h = Inr (m, h')" by (simp add: merge_def)
  note nw = new_Node_deref[OF fr new]
  from deref_Some_dom[OF na(1)] have "a \<noteq> NULL" by simp
  then have nl: "\<not> (left ?n = NULL \<and> right ?n = NULL)" by simp
  have "tree_at h' m (Inner (w ?n) ta tb)"
    by (rule tree_at.at_inner[OF nw(1) nl])
       (simp_all add: tree_at_extends[OF a nw(2)] tree_at_extends[OF b nw(2)])
  with mg nw(2) na nb show ?thesis by simp
qed

text \<open>
  The inner loop of \<open>huffman\<close> stays inside the vector and permutes it.
\<close>

lemma swap_ok:
  assumes "in_range ts i" "in_range ts j" "in_range ts k"
  shows "\<exists>ts'. swap ts i j k = Inr ts' \<and> mset ts' = mset ts \<and> length ts' = length ts"
proof -
  from assms have "nat i < length ts" "nat j < length ts" "nat k < length ts"
    by (auto simp: in_range_def)
  then have "mset (std_swap ts (nat i) (nat k)) = mset ts"
    and "mset (std_swap ts (nat i) (nat j)) = mset ts"
    by (simp_all add: std_swap_def mset_swap)
  with assms show ?thesis
    by (simp add: swap_def std_swap_def)
qed

lemma for_loop_ok:
  "n = int (length ts) \<Longrightarrow> i \<le> n - 3 \<Longrightarrow>
   \<exists>ts'. for_loop ts n i = Inr ts' \<and> mset ts' = mset ts \<and> length ts' = length ts"
proof (induction ts n i rule: for_loop.induct)
  case (1 ts n i)
  show ?case
  proof (cases "i \<ge> 0")
    case False
    then show ?thesis by (simp add: for_loop.simps[of ts n i])
  next
    case True
    note pos = this
    with "1.prems" have rng: "in_range ts i" "in_range ts (n - 1)" "in_range ts (n - 2)"
      by (auto simp: in_range_def)
    then have rng': "\<not> \<not> (in_range ts i \<and> in_range ts (n - 1))" by simp
    show ?thesis
    proof (cases "ts ! nat i < min (ts ! nat (n - 1)) (ts ! nat (n - 1))")
      case True
      from swap_ok[OF rng] obtain ts1 where
        sw: "swap ts i (n - 1) (n - 2) = Inr ts1" and
        ms: "mset ts1 = mset ts" and len: "length ts1 = length ts" by blast
      from "1.prems" len have "n = int (length ts1)" "i - 1 \<le> n - 3" by simp_all
      from "1.IH"(1)[OF pos rng' True sw this] obtain ts' where
        "for_loop ts1 n (i - 1) = Inr ts'" "mset ts' = mset ts1" "length ts' = length ts1"
        by blast
      with pos rng True sw ms len show ?thesis
        by (simp add: for_loop.simps[of ts n i])
    next
      case False
      from "1.prems" have "i - 1 \<le> n - 3" by simp
      from "1.IH"(2)[OF pos rng' False "1.prems"(1) this] obtain ts' where
        "for_loop ts n (i - 1) = Inr ts'" "mset ts' = mset ts" "length ts' = length ts"
        by blast
      with pos rng False show ?thesis
        by (simp add: for_loop.simps[of ts n i])
    qed
  qed
qed

lemma last_two:
  assumes "2 \<le> length (xs :: 'a list)"
  shows "\<exists>ys. xs = ys @ [xs ! (length xs - 2), xs ! (length xs - 1)]"
proof (cases xs rule: rev_cases)
  case Nil
  with assms show ?thesis by simp
next
  case (snoc ys1 z)
  show ?thesis
  proof (cases ys1 rule: rev_cases)
    case Nil
    with snoc assms show ?thesis by simp
  next
    case (snoc ys y)
    with \<open>xs = ys1 @ [z]\<close> have "xs = ys @ [y, z]" by simp
    then show ?thesis by (simp add: nth_append)
  qed
qed

text \<open>
  One round of \<open>huffman\<close> on a vector of at least two pointers to trees: the last
  two elements \<open>b\<close>, \<open>a\<close> of the permuted vector are merged.
\<close>

lemma huffman_body_tree:
  assumes fr: "fresh alloc" and len: "2 \<le> length ts" and rep: "list_all2 (tree_at h) ts tsA"
  shows "\<exists>xs xsA a b ta tb m h'.
      huffman_body alloc ts h = Inr (xs @ [m], h') \<and>
      mset (xs @ [b, a]) = mset ts \<and> mset (xsA @ [tb, ta]) = mset tsA \<and>
      list_all2 (tree_at h) xs xsA \<and> tree_at h a ta \<and> tree_at h b tb \<and>
      merge alloc a b h = Inr (m, h') \<and> extends h h' \<and>
      tree_at h' m (Inner (weight ta + weight tb) ta tb) \<and>
      for_loop ts (int (length ts)) (int (length ts) - 3) = Inr (xs @ [b, a])"
proof -
  let ?n = "int (length ts)"
  from for_loop_ok[of ?n ts "?n - 3"] obtain ts1 where
    fl: "for_loop ts ?n (?n - 3) = Inr ts1" and ms: "mset ts1 = mset ts" and
    l1: "length ts1 = length ts" by auto
  from list_all2_reorder_left_invariance[OF rep ms] obtain tsA1 where
    rep1: "list_all2 (tree_at h) ts1 tsA1" and msA: "mset tsA1 = mset tsA" by blast
  define a where "a = ts1 ! (length ts1 - 1)"
  define b where "b = ts1 ! (length ts1 - 2)"
  from last_two[of ts1] len l1 obtain xs where xs: "ts1 = xs @ [b, a]"
    by (auto simp: a_def b_def)
  from rep1[unfolded xs] obtain xsA tb ta where
    tsA1: "tsA1 = xsA @ [tb, ta]" and rxs: "list_all2 (tree_at h) xs xsA" and
    ra: "tree_at h a ta" and rb: "tree_at h b tb"
    by (auto simp: list_all2_append1 list_all2_Cons1)
  from merge_tree[OF fr ra rb] obtain m h' where
    mg: "merge alloc a b h = Inr (m, h')" and ext: "extends h h'" and
    rm: "tree_at h' m (Inner (weight ta + weight tb) ta tb)" by blast
  from len l1 have rng: "in_range ts1 (?n - 1)" "in_range ts1 (?n - 2)"
    by (auto simp: in_range_def)
  from len l1 have idx: "nat (?n - 1) = length ts1 - 1" "nat (?n - 2) = length ts1 - 2"
    by auto
  have e1: "ts1 ! nat (?n - 1) = a" and e2: "ts1 ! nat (?n - 2) = b"
    unfolding idx by (simp_all add: a_def b_def)
  have e3: "butlast (ts1[nat (?n - 2) := m]) = xs @ [m]"
    unfolding idx by (simp add: xs butlast_append)
  have "huffman_body alloc ts h = Inr (xs @ [m], h')"
    unfolding huffman_body_def Let_def
    using fl rng mg by (simp add: e1 e2 e3)
  with ms msA xs tsA1 rxs ra rb mg ext rm fl show ?thesis by blast
qed


text \<open>
  \<open>huffman\<close> on a non-empty vector of pointers to trees returns a pointer to a tree
  with the same leaves; it is an inner node unless the vector has one element.
\<close>

lemma huffman_tree:
  assumes fr: "fresh alloc"
  shows "ts \<noteq> [] \<Longrightarrow> list_all2 (tree_at h) ts tsA \<Longrightarrow>
     \<exists>root h' t. huffman alloc ts h = Inr (root, h') \<and> extends h h' \<and> tree_at h' root t \<and>
       mset (leaves t) = all_leaves tsA \<and>
       ((\<forall>u\<in>set tsA. weights_add_up u) \<longrightarrow> weights_add_up t) \<and>
       (2 \<le> length ts \<longrightarrow> (\<exists>wt l r. t = Inner wt l r)) \<and>
       (length ts = 1 \<longrightarrow> root = hd ts \<and> h' = h \<and> t = hd tsA)"
proof (induction "length ts" arbitrary: ts tsA h rule: less_induct)
  case less
  show ?case
  proof (cases "2 \<le> length ts")
    case False
    with less.prems obtain p where ts: "ts = [p]" by (cases ts; cases "tl ts") auto
    with less.prems obtain t where tsA: "tsA = [t]" and t: "tree_at h p t"
      by (auto simp: list_all2_Cons1)
    have "huffman alloc ts h = Inr (p, h)" unfolding ts by (simp add: huffman.simps[of alloc "[p]" h])
    with ts tsA t show ?thesis by (auto simp: extends_refl all_leaves_def)
  next
    case True
    from huffman_body_tree[OF fr True less.prems(2)] obtain xs xsA a b ta tb m h1 where
      body: "huffman_body alloc ts h = Inr (xs @ [m], h1)" and
      ms: "mset (xs @ [b, a]) = mset ts" and msA: "mset (xsA @ [tb, ta]) = mset tsA" and
      rxs: "list_all2 (tree_at h) xs xsA" and ext: "extends h h1" and
      rm: "tree_at h1 m (Inner (weight ta + weight tb) ta tb)" by blast
    let ?u = "Inner (weight ta + weight tb) ta tb"
    from ms have "size (mset (xs @ [b, a])) = size (mset ts)" by simp
    then have lts: "length ts = length xs + 2" by simp
    have rxs1: "list_all2 (tree_at h1) xs xsA"
      by (rule list_all2_mono[OF rxs]) (rule tree_at_extends[OF _ ext])
    with rm have rep': "list_all2 (tree_at h1) (xs @ [m]) (xsA @ [?u])"
      by (simp add: list_all2_appendI)
    from lts have "length (xs @ [m]) < length ts" by simp
    from less.hyps[OF this _ rep'] obtain root h' t where
      hf: "huffman alloc (xs @ [m]) h1 = Inr (root, h')" and ext': "extends h1 h'" and
      rt: "tree_at h' root t" and lv: "mset (leaves t) = all_leaves (xsA @ [?u])" and
      wa: "(\<forall>u\<in>set (xsA @ [?u]). weights_add_up u) \<longrightarrow> weights_add_up t" and
      inner: "2 \<le> length (xs @ [m]) \<longrightarrow> (\<exists>wt l r. t = Inner wt l r)" and
      one: "length (xs @ [m]) = 1 \<longrightarrow> t = hd (xsA @ [?u])"
      by blast
    from True body hf have 1: "huffman alloc ts h = Inr (root, h')"
      by (simp add: huffman.simps[of alloc ts h])
    have 2: "extends h h'" by (rule extends_trans[OF ext ext'])
    have "all_leaves (xsA @ [?u]) = all_leaves (xsA @ [tb, ta])"
      by (simp add: all_leaves_def)
    also have "\<dots> = all_leaves tsA" unfolding all_leaves_def msA ..
    finally have 3: "mset (leaves t) = all_leaves tsA" using lv by simp
    from msA have "set (xsA @ [tb, ta]) = set tsA" by (rule mset_eq_setD)
    with wa have 4: "(\<forall>u\<in>set tsA. weights_add_up u) \<longrightarrow> weights_add_up t"
      by auto
    have 5: "\<exists>wt l r. t = Inner wt l r"
    proof (cases "xs = []")
      case True
      with rxs have "xsA = []" by simp
      with True one show ?thesis by simp
    next
      case False
      then have "2 \<le> length (xs @ [m])" by (cases xs) auto
      with inner show ?thesis by blast
    qed
    from 1 2 rt 3 4 5 True show ?thesis by auto
  qed
qed

text \<open>
  One round of the loop on a vector of at least two pointers to trees: the \<open>for\<close> loop
  moves two pointers \<open>b\<close> and \<open>a\<close> to the end of the vector, they leave it, the node
  allocated by \<open>merge(a, b)\<close> enters it at the end,
  the heap grows by that node only, the vector is again one of pointers to trees, over the
  same leaves, and \<open>huffman\<close> goes on with it.
\<close>

lemma huffman_round:
  assumes fr: "fresh alloc" and len: "2 \<le> length ts" and rep: "list_all2 (tree_at h) ts tsA"
  shows "\<exists>xs a b na nb m tsA'.
      for_loop ts (int (length ts)) (int (length ts) - 3) = Inr (xs @ [b, a]) \<and>
      mset ts = mset xs + {#a, b#} \<and> deref h a = Some na \<and> deref h b = Some nb \<and>
      m \<notin> fst ` set h \<and> m \<noteq> NULL \<and>
      huffman_body alloc ts h =
        Inr (xs @ [m], (m, \<lparr>w = w na + w nb, c = CHR 0x00, left = a, right = b\<rparr>) # h) \<and>
      list_all2 (tree_at ((m, \<lparr>w = w na + w nb, c = CHR 0x00, left = a, right = b\<rparr>) # h))
        (xs @ [m]) tsA' \<and>
      all_leaves tsA' = all_leaves tsA \<and>
      huffman alloc ts h =
        huffman alloc (xs @ [m]) ((m, \<lparr>w = w na + w nb, c = CHR 0x00, left = a, right = b\<rparr>) # h)"
proof -
  from huffman_body_tree[OF fr len rep] obtain xs xsA a b ta tb m h1 where
    body: "huffman_body alloc ts h = Inr (xs @ [m], h1)" and
    ms: "mset (xs @ [b, a]) = mset ts" and msA: "mset (xsA @ [tb, ta]) = mset tsA" and
    rxs: "list_all2 (tree_at h) xs xsA" and
    mg: "merge alloc a b h = Inr (m, h1)" and ext: "extends h h1" and
    rm: "tree_at h1 m (Inner (weight ta + weight tb) ta tb)" and
    fl: "for_loop ts (int (length ts)) (int (length ts) - 3) = Inr (xs @ [b, a])" by blast
  let ?u = "Inner (weight ta + weight tb) ta tb"
  from mg obtain na nb where na: "deref h a = Some na" and nb: "deref h b = Some nb" and
    new: "new_Node alloc \<lparr>w = w na + w nb, c = CHR 0x00, left = a, right = b\<rparr> h = (m, h1)"
    by (auto simp: merge_def split: option.splits)
  let ?n = "\<lparr>w = w na + w nb, c = CHR 0x00, left = a, right = b\<rparr>"
  from new have m: "m = alloc (map fst h)" and h1: "h1 = (m, ?n) # h"
    by (auto simp: new_Node_def Let_def)
  from fr have "alloc (map fst h) \<notin> set (map fst h) \<and> alloc (map fst h) \<noteq> NULL"
    unfolding fresh_def by blast
  with m have nin: "m \<notin> fst ` set h" and nn: "m \<noteq> NULL" by simp_all
  from ms have m1: "mset ts = mset xs + {#a, b#}" by (simp add: add_mset_commute)
  have rxs1: "list_all2 (tree_at h1) xs xsA"
    by (rule list_all2_mono[OF rxs]) (rule tree_at_extends[OF _ ext])
  with rm have rep': "list_all2 (tree_at h1) (xs @ [m]) (xsA @ [?u])"
    by (simp add: list_all2_appendI)
  have "all_leaves (xsA @ [?u]) = all_leaves (xsA @ [tb, ta])"
    by (simp add: all_leaves_def)
  also have "\<dots> = all_leaves tsA" unfolding all_leaves_def msA ..
  finally have al: "all_leaves (xsA @ [?u]) = all_leaves tsA" .
  from len body have hf: "huffman alloc ts h = huffman alloc (xs @ [m]) h1"
    by (simp add: huffman.simps[of alloc ts h])
  show ?thesis
    using fl m1 na nb nin nn body[unfolded h1] rep'[unfolded h1] al hf[unfolded h1] by blast
qed

text \<open>
  The loop after \<open>k\<close> rounds, for \<open>k\<close> below the length of the vector: the vector has lost
  \<open>k\<close> elements, it is a vector of pointers to trees over the same leaves, and \<open>huffman\<close>
  returns what it returns from there.
\<close>

lemma rounds_invariant:
  assumes fr: "fresh alloc" and rep: "list_all2 (tree_at h) ts tsA"
  shows "k < length ts \<Longrightarrow>
     \<exists>tsk hk tsAk. rounds alloc ts h k = Inr (tsk, hk) \<and> length tsk = length ts - k \<and>
       list_all2 (tree_at hk) tsk tsAk \<and> all_leaves tsAk = all_leaves tsA \<and>
       huffman alloc ts h = huffman alloc tsk hk"
proof (induction k)
  case 0
  with rep show ?case by auto
next
  case (Suc k)
  then obtain tsk hk tsAk where
    rk: "rounds alloc ts h k = Inr (tsk, hk)" and lk: "length tsk = length ts - k" and
    repk: "list_all2 (tree_at hk) tsk tsAk" and alk: "all_leaves tsAk = all_leaves tsA" and
    hk: "huffman alloc ts h = huffman alloc tsk hk" by auto
  from Suc.prems lk have "2 \<le> length tsk" by simp
  from huffman_round[OF fr this repk] obtain xs m h1 tsA' where
    body: "huffman_body alloc tsk hk = Inr (xs @ [m], h1)" and
    rep': "list_all2 (tree_at h1) (xs @ [m]) tsA'" and
    al': "all_leaves tsA' = all_leaves tsAk" and
    hf: "huffman alloc tsk hk = huffman alloc (xs @ [m]) h1" by blast
  from huffman_body_length[OF body] lk have "length (xs @ [m]) = length ts - Suc k" by simp
  moreover from rk body have "rounds alloc ts h (Suc k) = Inr (xs @ [m], h1)" by simp
  ultimately show ?case using rep' al' alk hk hf by (metis (no_types))
qed

section \<open>Leaves and the running example\<close>


lemma nodes_abc: "nodes bump (freq ''aaabbc'') [] = ([32, 64, 96], abc_heap)"
  by (simp add: nodes_def freq_def leaf_def new_Node_def bump_def abc_heap_def char_val_def)

lemma abc_leaves: "\<forall>p\<in>set [32, 64, 96]. isleaf abc_heap p = Inr True"
  by (simp add: isleaf_def deref_def abc_heap_def NULL_def)

lemma leaf_tree_at:
  assumes "isleaf h p = Inr True"
  shows "\<exists>n. deref h p = Some n \<and> tree_at h p (Leaf (w n) (c n)) \<and> leaf_fields h p = [(c n, w n)]"
proof -
  from assms obtain n where n: "deref h p = Some n" "left n = NULL" "right n = NULL"
    by (auto simp: isleaf_def split: option.splits)
  then have "tree_at h p (Leaf (w n) (c n))" by (rule tree_at.at_leaf)
  with n show ?thesis by (simp add: leaf_fields_def)
qed

lemma leaves_rep:
  "\<forall>p\<in>set ts. isleaf h p = Inr True \<Longrightarrow>
   \<exists>tsA. list_all2 (tree_at h) ts tsA \<and> all_leaves tsA = mset (input_leaves h ts) \<and>
         (\<forall>u\<in>set tsA. weights_add_up u)"
proof (induction ts)
  case Nil
  show ?case by (simp add: all_leaves_def input_leaves_def)
next
  case (Cons p ts)
  then obtain tsA where tsA: "list_all2 (tree_at h) ts tsA"
    "all_leaves tsA = mset (input_leaves h ts)" "\<forall>u\<in>set tsA. weights_add_up u" by auto
  from Cons.prems have "isleaf h p = Inr True" by simp
  from leaf_tree_at[OF this] obtain n :: Node where
    n: "tree_at h p (Leaf (w n) (c n))" "leaf_fields h p = [(c n, w n)]" by blast
  let ?l = "Leaf (w n) (c n)"
  have "list_all2 (tree_at h) (p # ts) (?l # tsA)" using n tsA by simp
  moreover have "all_leaves (?l # tsA) = mset (input_leaves h (p # ts))"
    using n tsA(2) by (simp add: all_leaves_def input_leaves_def)
  moreover have "\<forall>u\<in>set (?l # tsA). weights_add_up u" using tsA(3) by simp
  ultimately show ?case by blast
qed

lemma abc_trees: "\<forall>p\<in>set [32, 64, 96]. \<exists>t. tree_at abc_heap p t"
proof
  fix p :: ptr assume "p \<in> set [32, 64, 96]"
  with abc_leaves have "isleaf abc_heap p = Inr True" by blast
  from leaf_tree_at[OF this] show "\<exists>t. tree_at abc_heap p t" by blast
qed

lemma for_loop_abc: "for_loop [32, 64, 96] 3 0 = Inr [96, 64, 32]"
  by (simp add: for_loop.simps[of _ 3 0] for_loop.simps[of _ 3 "-1"] in_range_def swap_def std_swap_def)

lemma body_abc:
  "huffman_body bump [32, 64, 96] abc_heap =
     Inr ([96, 128], (128, \<lparr>w = 5, c = CHR 0x00, left = 32, right = 64\<rparr>) # abc_heap)"
  by (simp add: huffman_body_def for_loop_abc in_range_def merge_def deref_def NULL_def
      new_Node_def bump_def abc_heap_def)

lemma for_loop_cba: "for_loop [96, 64, 32] 3 0 = Inr [96, 64, 32]"
  by (simp add: for_loop.simps[of _ 3 0] for_loop.simps[of _ 3 "-1"] in_range_def swap_def std_swap_def)

lemma body_cba:
  "huffman_body bump [96, 64, 32] cba_heap =
     Inr ([96, 128], (128, \<lparr>w = 3, c = CHR 0x00, left = 32, right = 64\<rparr>) # cba_heap)"
  by (simp add: huffman_body_def for_loop_cba in_range_def merge_def deref_def NULL_def
      new_Node_def bump_def cba_heap_def)

lemma huffman_abc: "huffman bump [32, 64, 96] abc_heap = Inr (160, abc_final)"
proof -
  have "for_loop [96, 128] 2 (-1) = Inr [96, 128]" by (simp add: for_loop.simps[of _ 2 "-1"])
  then have "huffman_body bump [96, 128] ((128, \<lparr>w = 5, c = CHR 0x00, left = 32, right = 64\<rparr>) # abc_heap)
     = Inr ([160], abc_final)"
    by (simp add: huffman_body_def in_range_def merge_def deref_def NULL_def
      new_Node_def bump_def abc_heap_def abc_final_def)
  then show ?thesis
    by (simp add: huffman.simps[of bump "[32, 64, 96]"] body_abc huffman.simps[of bump "[96, 128]"]
        huffman.simps[of bump "[160]"])
qed

lemma abc_tree_at: "tree_at abc_final 160 abc_tree"
proof -
  have d: "deref abc_final 160 = Some \<lparr>w = 6, c = CHR 0x00, left = 128, right = 96\<rparr>"
    "deref abc_final 128 = Some \<lparr>w = 5, c = CHR 0x00, left = 32, right = 64\<rparr>"
    "deref abc_final 96 = Some \<lparr>w = 1, c = CHR ''c'', left = NULL, right = NULL\<rparr>"
    "deref abc_final 64 = Some \<lparr>w = 2, c = CHR ''b'', left = NULL, right = NULL\<rparr>"
    "deref abc_final 32 = Some \<lparr>w = 3, c = CHR ''a'', left = NULL, right = NULL\<rparr>"
    by (simp_all add: deref_def abc_final_def abc_heap_def NULL_def)
  have l1: "tree_at abc_final 32 (Leaf 3 CHR ''a'')" using tree_at.at_leaf[OF d(5)] by simp
  have l2: "tree_at abc_final 64 (Leaf 2 CHR ''b'')" using tree_at.at_leaf[OF d(4)] by simp
  have l3: "tree_at abc_final 96 (Leaf 1 CHR ''c'')" using tree_at.at_leaf[OF d(3)] by simp
  have l4: "tree_at abc_final 128 (Inner 5 (Leaf 3 CHR ''a'') (Leaf 2 CHR ''b''))"
    using tree_at.at_inner[OF d(2), of "Leaf 3 CHR ''a''" "Leaf 2 CHR ''b''"] l1 l2
    by (simp add: NULL_def)
  show ?thesis
    unfolding abc_tree_def
    using tree_at.at_inner[OF d(1), of "Inner 5 (Leaf 3 CHR ''a'') (Leaf 2 CHR ''b'')" "Leaf 1 CHR ''c''"] l4 l3
    by (simp add: NULL_def)
qed

section \<open>Code table, encoder and decoder on trees\<close>

inductive_cases tree_at_LeafE: "tree_at h p (Leaf wt x)"
inductive_cases tree_at_InnerE: "tree_at h p (Inner wt l r)"

lemma tree_at_Leaf_iff:
  "tree_at h p (Leaf wt x) \<longleftrightarrow>
     (\<exists>n. deref h p = Some n \<and> left n = NULL \<and> right n = NULL \<and> wt = w n \<and> x = c n)"
  by (auto elim: tree_at_LeafE intro: tree_at.at_leaf)

lemma tree_at_Inner_iff:
  "tree_at h p (Inner wt l r) \<longleftrightarrow>
     (\<exists>n. deref h p = Some n \<and> \<not> (left n = NULL \<and> right n = NULL) \<and> wt = w n \<and>
          tree_at h (left n) l \<and> tree_at h (right n) r)"
  by (auto elim: tree_at_InnerE intro: tree_at.at_inner)

lemma tree_at_isleaf:
  "tree_at h p (Leaf wt x) \<Longrightarrow> isleaf h p = Inr True"
  "tree_at h p (Inner wt l r) \<Longrightarrow> isleaf h p = Inr False"
  by (auto simp: tree_at_Leaf_iff tree_at_Inner_iff isleaf_def)

lemma tree_at_nonnull: "tree_at h p t \<Longrightarrow> p \<noteq> NULL"
  using tree_at_deref deref_Some_dom by blast

text \<open>
  On a pointer that stands for a tree, \<open>codetab\<close> returns, and returns what
  \<open>codetab_tree\<close> computes.
\<close>

lemma codetab_tree_at:
  "tree_at h p t \<Longrightarrow> codetab h p bits codes = Some (Inr (codetab_tree t bits codes))"
proof (induction arbitrary: bits codes rule: tree_at.induct)
  case (at_leaf h p n)
  then show ?case
    by (subst codetab.simps) (simp add: isleaf_def)
next
  case (at_inner h p n l r)
  from tree_at_nonnull[OF at_inner(3)] have "left n \<noteq> NULL" .
  with at_inner show ?case
    by (subst codetab.simps) (simp add: isleaf_def)
qed

lemma codetab_tree_other:
  "x \<notin> set (symbols t) \<Longrightarrow> codetab_tree t bits codes x = codes x"
  by (induction t arbitrary: bits codes) (auto simp: symbols_def)

text \<open>
  The entry of a symbol of the tree is the path to a leaf that carries the symbol.
\<close>

lemma codetab_tree_code:
  "x \<in> set (symbols t) \<Longrightarrow>
   \<exists>p. codetab_tree t bits codes x = Some (bits @ p) \<and> descend t p = Some x"
proof (induction t arbitrary: bits codes)
  case (Leaf wt y)
  then show ?case by (auto simp: symbols_def)
next
  case (Inner wt l r)
  show ?case
  proof (cases "x \<in> set (symbols r)")
    case True
    from Inner.IH(2)[OF True, of "bits @ ''1''" "codetab_tree l (bits @ ''0'') codes"]
    obtain p where "codetab_tree r (bits @ ''1'') (codetab_tree l (bits @ ''0'') codes) x
        = Some ((bits @ ''1'') @ p)" "descend r p = Some x" by blast
    then have "codetab_tree (Inner wt l r) bits codes x = Some (bits @ (CHR ''1'' # p)) \<and>
        descend (Inner wt l r) (CHR ''1'' # p) = Some x" by simp
    then show ?thesis by blast
  next
    case False
    with Inner.prems have xl: "x \<in> set (symbols l)" by (auto simp: symbols_def)
    from Inner.IH(1)[OF xl, of "bits @ ''0''" codes]
    obtain p where "codetab_tree l (bits @ ''0'') codes x = Some ((bits @ ''0'') @ p)"
      "descend l p = Some x" by blast
    with codetab_tree_other[OF False] have
      "codetab_tree (Inner wt l r) bits codes x = Some (bits @ (CHR ''0'' # p)) \<and>
        descend (Inner wt l r) (CHR ''0'' # p) = Some x" by simp
    then show ?thesis by blast
  qed
qed

lemma codetab_tree_dom: "dom (codetab_tree t bits codes) = dom codes \<union> set (symbols t)"
  by (induction t arbitrary: bits codes) (auto simp: symbols_def)

lemma descend_Leaf: "descend (Leaf wt a) q = Some b \<Longrightarrow> q = [] \<and> a = b"
  by (cases q) auto

text \<open>
  A path to a leaf is not a proper prefix of a path to a leaf.
\<close>

lemma descend_prefix:
  "descend t p = Some a \<Longrightarrow> descend t (p @ q) = Some b \<Longrightarrow> q = []"
  by (induction t p rule: descend.induct) (auto split: if_splits dest: descend_Leaf)

lemma descend_Inner_nonempty: "descend (Inner wt l r) p = Some x \<Longrightarrow> p \<noteq> []"
  by auto

text \<open>
  \<open>encode\<close> concatenates what \<open>codes[x]\<close> yields; the keys it inserts change nothing.
\<close>

lemma encode_loop_code_of:
  "encode_loop codes s bits = bits @ concat (map (code_of codes) s)"
proof (induction s arbitrary: codes bits)
  case Nil
  show ?case by simp
next
  case (Cons x xs)
  show ?case
  proof (cases "codes x")
    case None
    have eq: "code_of (codes(x \<mapsto> [])) = code_of codes"
      using None by (auto simp: code_of_def fun_eq_iff)
    have cx: "code_of codes x = []" using None by (simp add: code_of_def)
    have "encode_loop codes (x # xs) bits = encode_loop (codes(x \<mapsto> [])) xs bits"
      using None by simp
    also have "\<dots> = bits @ concat (map (code_of (codes(x \<mapsto> []))) xs)"
      by (rule Cons)
    also have "\<dots> = bits @ concat (map (code_of codes) (x # xs))"
      unfolding eq by (simp add: cx)
    finally show ?thesis .
  next
    case (Some s)
    have cx: "code_of codes x = s" using Some by (simp add: code_of_def)
    show ?thesis
      by (simp add: Some Cons[of codes "bits @ s"] cx)
  qed
qed

text \<open>
  The inner loop of \<open>decode\<close> follows a path to a leaf and leaves the rest unread.
\<close>

lemma walk_descend:
  "tree_at h p t \<Longrightarrow> descend t path = Some x \<Longrightarrow>
   \<exists>q n. walk h p (path @ rest) = Inr (q, rest) \<and> deref h q = Some n \<and> c n = x"
proof (induction path arbitrary: p t)
  case Nil
  then obtain wt where t: "t = Leaf wt x" by (cases t) auto
  with Nil have lf: "isleaf h p = Inr True" and "\<exists>n. deref h p = Some n \<and> c n = x"
    by (auto simp: tree_at_isleaf tree_at_Leaf_iff)
  then show ?case by (cases rest) auto
next
  case (Cons b path)
  then obtain wt l r where t: "t = Inner wt l r" by (cases t) auto
  with Cons.prems obtain n where n: "deref h p = Some n" "isleaf h p = Inr False"
    "tree_at h (left n) l" "tree_at h (right n) r"
    by (auto simp: tree_at_Inner_iff isleaf_def)
  let ?q = "if CHR ''0'' = b then left n else right n"
  let ?u = "if CHR ''0'' = b then l else r"
  from n have "tree_at h ?q ?u" by simp
  moreover from Cons.prems t have "descend ?u path = Some x" by simp
  ultimately obtain q m where "walk h ?q (path @ rest) = Inr (q, rest)" "deref h q = Some m" "c m = x"
    using Cons.IH by blast
  with n show ?case by auto
qed

lemma decode_loop_codes:
  assumes root: "tree_at h root (Inner wt l r)"
  shows "\<forall>x\<in>set s. \<exists>p. f x = p \<and> descend (Inner wt l r) p = Some x \<Longrightarrow>
     decode_loop h root (concat (map f s)) out = Some (Inr (out @ s))"
proof (induction s arbitrary: out)
  case Nil
  show ?case by (subst decode_loop.simps) simp
next
  case (Cons x xs)
  then have d: "descend (Inner wt l r) (f x) = Some x" by simp
  then have ne: "f x \<noteq> []" by auto
  from walk_descend[OF root d, of "concat (map f xs)"] obtain q n where
    wk: "walk h root (f x @ concat (map f xs)) = Inr (q, concat (map f xs))" and
    n: "deref h q = Some n" "c n = x" by blast
  from Cons have "decode_loop h root (concat (map f xs)) (out @ [x]) = Some (Inr ((out @ [x]) @ xs))"
    by simp
  with ne wk n show ?case
    by (subst decode_loop.simps) simp
qed

lemma leaves_symbols:
  assumes "mset (leaves t) = mset (input_leaves h ts)"
  shows "set (symbols t) = fst ` set (input_leaves h ts)"
proof -
  from assms have "set (leaves t) = set (input_leaves h ts)" by (rule mset_eq_setD)
  then show ?thesis by (simp add: symbols_def)
qed

lemma huffman_ab:
  "nodes bump (freq ''ab'') [] = ([32, 64], tl ab_heap)"
  "huffman bump [32, 64] (tl ab_heap) = Inr (96, ab_heap)"
proof -
  show "nodes bump (freq ''ab'') [] = ([32, 64], tl ab_heap)"
    by (simp add: nodes_def freq_def leaf_def new_Node_def bump_def ab_heap_def char_val_def)
  have "for_loop [32, 64] 2 (-1) = Inr [32, 64]" by (simp add: for_loop.simps[of _ 2 "-1"])
  then have "huffman_body bump [32, 64] (tl ab_heap) = Inr ([96], ab_heap)"
    by (simp add: huffman_body_def in_range_def merge_def deref_def NULL_def
      new_Node_def bump_def ab_heap_def)
  then show "huffman bump [32, 64] (tl ab_heap) = Inr (96, ab_heap)"
    by (simp add: huffman.simps[of bump "[32, 64]"] huffman.simps[of bump "[96]"])
qed

lemma codetable_ab:
  "codetable ab_heap 96 = Some (Inr [CHR ''b'' \<mapsto> ''0'', CHR ''a'' \<mapsto> ''1''])"
proof -
  have d: "deref ab_heap 96 = Some \<lparr>w = 2, c = CHR 0x00, left = 64, right = 32\<rparr>"
    "deref ab_heap 64 = Some \<lparr>w = 1, c = CHR ''b'', left = NULL, right = NULL\<rparr>"
    "deref ab_heap 32 = Some \<lparr>w = 1, c = CHR ''a'', left = NULL, right = NULL\<rparr>"
    by (simp_all add: deref_def ab_heap_def NULL_def)
  have "tree_at ab_heap 96 (Inner 2 (Leaf 1 CHR ''b'') (Leaf 1 CHR ''a''))"
    by (simp add: tree_at_Inner_iff tree_at_Leaf_iff d NULL_def)
  from codetab_tree_at[OF this, of "[]" Map.empty] show ?thesis
    by (simp add: codetable_def)
qed

section \<open>Histogram, leaves and the decoder on a single leaf\<close>

lemma isleaf_walk: "isleaf h root = Inr True \<Longrightarrow> walk h root bits = Inr (root, bits)"
  by (cases bits) auto

text \<open>
  With a leaf as root, \<open>decode\<close> returns on the empty bit-string only.
\<close>

lemma decode_loop_leaf_aux:
  assumes "decode_loop h root bits out = Some y"
  shows "isleaf h root = Inr True \<longrightarrow> bits = []"
proof (rule decode_loop.raw_induct
    [where P = "\<lambda>h root bits out y. isleaf h root = Inr True \<longrightarrow> bits = []", OF _ assms])
  fix f :: "heap \<Rightarrow> ptr \<Rightarrow> string \<Rightarrow> string \<Rightarrow> string result option"
  fix h root bits out y
  assume IH: "\<And>h root bits out y. f h root bits out = Some y \<Longrightarrow>
      isleaf h root = Inr True \<longrightarrow> bits = []"
  assume eq: "(if bits = [] then Some (Inr out)
      else case walk h root bits of Inl e \<Rightarrow> Some (Inl e)
           | Inr (t, rest) \<Rightarrow>
               case deref h t of None \<Rightarrow> Some (Inl BadPointer)
               | Some n \<Rightarrow> f h root rest (out @ [c n])) = Some y"
  show "isleaf h root = Inr True \<longrightarrow> bits = []"
  proof (intro impI, rule ccontr)
    assume lf: "isleaf h root = Inr True" and ne: "bits \<noteq> []"
    from lf obtain n where n: "deref h root = Some n"
      by (auto simp: isleaf_def split: option.splits)
    from eq ne n isleaf_walk[OF lf, of bits]
    have "f h root bits (out @ [c n]) = Some y" by simp
    from IH[OF this] lf ne show False by simp
  qed
qed

lemma decode_loop_leaf_root:
  "isleaf h root = Inr True \<Longrightarrow> bits \<noteq> [] \<Longrightarrow> decode_loop h root bits out = None"
  using decode_loop_leaf_aux[of h root bits out] by (cases "decode_loop h root bits out") auto

lemma incr_keys: "fst ` set (incr x hist) = insert x (fst ` set hist)"
  by (induction x hist rule: incr.induct) auto

text \<open>
  The histogram has the symbols of the input as keys, each once, in key order; for an
  input over one symbol it has one entry, the length of the input.
\<close>

lemma freq_keys: "set (map fst (freq s)) = set s"
proof -
  have "fst ` set (fold incr s hist) = set s \<union> fst ` set hist" for hist
    by (induction s arbitrary: hist) (simp_all add: incr_keys)
  from this[of "[]"] show ?thesis by (simp add: freq_def)
qed

lemma fold_incr_single:
  "set s \<subseteq> {x} \<Longrightarrow> fold incr s [(x, k)] = [(x, k + of_nat (length s))]"
  by (induction s arbitrary: k) (auto simp: add.assoc add.commute)

lemma freq_single:
  assumes "s \<noteq> []" and "set s \<subseteq> {x}"
  shows "freq s = [(x, of_nat (length s))]"
proof -
  from assms obtain s' where s: "s = x # s'" by (cases s) auto
  with assms(2) have "set s' \<subseteq> {x}" by simp
  from fold_incr_single[OF this, of 1] s show ?thesis
    by (simp add: freq_def add.commute)
qed

lemma char_val_inj: "char_val a = char_val b \<Longrightarrow> a = b"
proof -
  assume eq: "char_val a = char_val b"
  have r: "(of_char ch :: nat) < 256" for ch by (rule nat_of_char_less_256)
  from eq r[of a] r[of b] have "(of_char a :: nat) = of_char b"
    unfolding char_val_def Let_def by (simp split: if_splits; linarith)
  then show "a = b" by simp
qed

lemma incr_sorted:
  "sorted_wrt (\<lambda>a b. char_val a < char_val b) (map fst hist) \<Longrightarrow>
   sorted_wrt (\<lambda>a b. char_val a < char_val b) (map fst (incr x hist))"
proof (induction x hist rule: incr.induct)
  case (1 x)
  show ?case by simp
next
  case (2 x y n hist)
  show ?case
  proof (cases "x = y")
    case True
    with 2 show ?thesis by simp
  next
    case ne: False
    show ?thesis
    proof (cases "char_val x < char_val y")
      case True
      with ne "2.prems" show ?thesis by (auto intro: less_trans)
    next
      case False
      with ne char_val_inj[of x y] have lt: "char_val y < char_val x" by force
      from "2.prems" have st: "sorted_wrt (\<lambda>a b. char_val a < char_val b) (map fst hist)"
        by simp
      have "\<forall>a\<in>fst ` set (incr x hist). char_val y < char_val a"
        unfolding incr_keys using "2.prems" lt by auto
      with "2.IH"[OF ne False st] ne False show ?thesis
        by auto
    qed
  qed
qed

lemma freq_sorted: "sorted_wrt (\<lambda>a b. char_val a < char_val b) (map fst (freq s))"
proof -
  have "sorted_wrt (\<lambda>a b. char_val a < char_val b) (map fst hist) \<Longrightarrow>
     sorted_wrt (\<lambda>a b. char_val a < char_val b) (map fst (fold incr s hist))" for hist
    by (induction s arbitrary: hist) (auto simp: incr_sorted)
  from this[of "[]"] show ?thesis by (simp add: freq_def)
qed

lemma freq_distinct: "distinct (map fst (freq s))"
proof -
  have "distinct xs" if "sorted_wrt (\<lambda>a b. char_val a < char_val b) xs" for xs
    using that by (induction xs) auto
  from this[OF freq_sorted] show ?thesis .
qed

lemma isleaf_extends: "isleaf h p = Inr True \<Longrightarrow> extends h h' \<Longrightarrow> isleaf h' p = Inr True"
  by (auto simp: isleaf_def extends_def split: option.splits)

lemma leaf_fields_extends:
  "isleaf h p = Inr True \<Longrightarrow> extends h h' \<Longrightarrow> leaf_fields h' p = leaf_fields h p"
  by (auto simp: isleaf_def leaf_fields_def extends_def split: option.splits)

lemma input_leaves_extends:
  "\<forall>p\<in>set ns. isleaf h p = Inr True \<Longrightarrow> extends h h' \<Longrightarrow>
   input_leaves h' ns = input_leaves h ns"
  by (induction ns) (auto simp: input_leaves_def leaf_fields_extends)

lemma leaf_new:
  assumes "fresh alloc" and "leaf alloc x k h = (p, h1)"
  shows "isleaf h1 p = Inr True" and "leaf_fields h1 p = [(x, k)]" and "extends h h1"
proof -
  note nw = new_Node_deref[OF assms(1) assms(2)[unfolded leaf_def]]
  from nw(1) show "isleaf h1 p = Inr True" by (simp add: isleaf_def)
  from nw(1) show "leaf_fields h1 p = [(x, k)]" by (simp add: leaf_fields_def)
  from nw(2) show "extends h h1" .
qed

text \<open>
  \<open>nodes\<close> allocates one leaf for each entry of the histogram.
\<close>

lemma nodes_loop_leaves:
  assumes fr: "fresh alloc"
  shows "\<forall>p\<in>set ns. isleaf h p = Inr True \<Longrightarrow> nodes_loop alloc hist ns h = (ts, h1) \<Longrightarrow>
     (\<forall>p\<in>set ts. isleaf h1 p = Inr True) \<and> input_leaves h1 ts = input_leaves h ns @ hist \<and>
     extends h h1 \<and> length ts = length ns + length hist"
proof (induction hist arbitrary: ns h)
  case Nil
  then show ?case by (auto simp: extends_refl)
next
  case (Cons e hist)
  obtain x k where e: "e = (x, k)" by (cases e)
  obtain p h' where lf: "leaf alloc x k h = (p, h')" by (cases "leaf alloc x k h")
  note new = leaf_new[OF fr lf]
  from Cons.prems(1) new have l': "\<forall>q\<in>set (ns @ [p]). isleaf h' q = Inr True"
    by (auto intro: isleaf_extends)
  from Cons.prems(2) e lf have "nodes_loop alloc hist (ns @ [p]) h' = (ts, h1)" by simp
  from Cons.IH[OF l' this] have
    1: "\<forall>p\<in>set ts. isleaf h1 p = Inr True" and
    2: "input_leaves h1 ts = input_leaves h' (ns @ [p]) @ hist" and
    3: "extends h' h1" and 4: "length ts = length (ns @ [p]) + length hist" by auto
  have "input_leaves h' (ns @ [p]) = input_leaves h ns @ [(x, k)]"
    using input_leaves_extends[OF Cons.prems(1) new(3)] new(2)
    by (simp add: input_leaves_def)
  with 1 2 3 4 e new(3) show ?case by (auto intro: extends_trans)
qed

lemma nodes_leaves:
  assumes "fresh alloc" and "nodes alloc hist h = (ts, h1)"
  shows "\<forall>p\<in>set ts. isleaf h1 p = Inr True" and "input_leaves h1 ts = hist"
    and "extends h h1" and "length ts = length hist"
  using nodes_loop_leaves[OF assms(1), of "[]" h hist ts h1] assms(2)
  by (simp_all add: nodes_def input_leaves_def)

text \<open>
  \<open>nodes(freq(s))\<close> is a vector of leaves, one for each symbol of \<open>s\<close>.
\<close>

lemma nodes_freq_symbols:
  assumes "fresh alloc" and "nodes alloc (freq s) h = (ts, h1)"
  shows "distinct (map fst (input_leaves h1 ts))" and "set (map fst (input_leaves h1 ts)) = set s"
  using nodes_leaves(2)[OF assms] freq_distinct[of s] freq_keys[of s] by simp_all

text \<open>
  Round trip on any tree with an inner node as root, for inputs over its symbols.
\<close>

lemma roundtrip_tree:
  assumes rt: "tree_at h root (Inner wt l r)" and sub: "set s \<subseteq> set (symbols (Inner wt l r))"
  shows "\<exists>tab. codetable h root = Some (Inr tab) \<and> decode h root (encode tab s) = Some (Inr s)"
proof -
  let ?t = "Inner wt l r"
  let ?tab = "codetab_tree ?t [] Map.empty"
  from codetab_tree_at[OF rt] have ct: "codetable h root = Some (Inr ?tab)"
    by (simp add: codetable_def)
  have "\<forall>x\<in>set s. \<exists>p. code_of ?tab x = p \<and> descend ?t p = Some x"
  proof
    fix x assume "x \<in> set s"
    with sub have "x \<in> set (symbols ?t)" by blast
    from codetab_tree_code[OF this, of "[]" Map.empty]
    show "\<exists>p. code_of ?tab x = p \<and> descend ?t p = Some x" by (auto simp: code_of_def)
  qed
  from decode_loop_codes[OF rt this, of "[]"]
  have "decode h root (encode ?tab s) = Some (Inr s)"
    by (simp add: decode_def encode_def encode_loop_code_of)
  with ct show ?thesis by blast
qed

text \<open>
  The pipeline on an input over one symbol.
\<close>

lemma single_leaf_pipeline:
  assumes "fresh alloc" and "s \<noteq> []" and "set s \<subseteq> {x}"
  shows "\<exists>p h1. nodes alloc (freq s) h = ([p], h1) \<and>
           huffman alloc [p] h1 = Inr (p, h1) \<and>
           tree_at h1 p (Leaf (of_nat (length s)) x) \<and>
           codetable h1 p = Some (Inr [x \<mapsto> []]) \<and>
           encode [x \<mapsto> []] s = [] \<and>
           decode h1 p [] = Some (Inr []) \<and>
           (\<forall>bits. bits \<noteq> [] \<longrightarrow> decode h1 p bits = None)"
proof -
  let ?k = "of_nat (length s) :: 32 word"
  from freq_single[OF assms(2,3)] have fq: "freq s = [(x, ?k)]" .
  obtain p h1 where lf: "leaf alloc x ?k h = (p, h1)" by (cases "leaf alloc x ?k h")
  then have nd: "nodes alloc (freq s) h = ([p], h1)" by (simp add: fq nodes_def)
  note new = leaf_new[OF assms(1) lf]
  have hf: "huffman alloc [p] h1 = Inr (p, h1)" by (simp add: huffman.simps[of alloc "[p]" h1])
  from leaf_tree_at[OF new(1)] new(2) have rt: "tree_at h1 p (Leaf ?k x)"
    by (auto simp: leaf_fields_def)
  from codetab_tree_at[OF rt, of "[]" Map.empty] have ct: "codetable h1 p = Some (Inr [x \<mapsto> []])"
    by (simp add: codetable_def)
  from assms(3) have "concat (map (code_of [x \<mapsto> []]) s) = []"
    by (induction s) (auto simp: code_of_def)
  then have en: "encode [x \<mapsto> []] s = []" by (simp add: encode_def encode_loop_code_of)
  have d0: "decode h1 p [] = Some (Inr [])"
    unfolding decode_def by (subst decode_loop.simps) simp
  have dn: "\<forall>bits. bits \<noteq> [] \<longrightarrow> decode h1 p bits = None"
    by (simp add: decode_def decode_loop_leaf_root[OF new(1)])
  from nd hf rt ct en d0 dn show ?thesis by blast
qed

text \<open>
  The round trip on an input with at least two different symbols: with
  \<open>tree = huffman(nodes(freq(s)))\<close> and \<open>table = codetable(tree)\<close> the program computes
  \<open>decode(tree, encode(table, s)) = s\<close>, whatever the allocator and the heap it starts
  from.
\<close>

lemma roundtrip_two_symbols:
  assumes "fresh alloc" and "a \<in> set s" and "b \<in> set s" and "a \<noteq> b"
  shows "\<exists>ts h1 root h2 tab. nodes alloc (freq s) h = (ts, h1) \<and>
           huffman alloc ts h1 = Inr (root, h2) \<and>
           codetable h2 root = Some (Inr tab) \<and>
           decode h2 root (encode tab s) = Some (Inr s)"
proof -
  obtain ts h1 where nd: "nodes alloc (freq s) h = (ts, h1)" by (cases "nodes alloc (freq s) h")
  note nl = nodes_leaves[OF assms(1) nd]
  from assms(2-4) freq_keys[of s] have "a \<in> set (map fst (freq s))" "b \<in> set (map fst (freq s))"
    by simp_all
  with assms(4) have "2 \<le> length (map fst (freq s))"
    by (cases "map fst (freq s)"; cases "tl (map fst (freq s))") auto
  with nl(4) have len: "2 \<le> length ts" by simp
  then have ne: "ts \<noteq> []" by auto
  from leaves_rep[OF nl(1)] obtain tsA where
    rep: "list_all2 (tree_at h1) ts tsA" and lv: "all_leaves tsA = mset (input_leaves h1 ts)"
    by blast
  from huffman_tree[OF assms(1) ne rep] len obtain root h2 t wt l r where
    hf: "huffman alloc ts h1 = Inr (root, h2)" and rt: "tree_at h2 root t" and
    ml: "mset (leaves t) = all_leaves tsA" and t: "t = Inner wt l r" by blast
  from ml lv have "mset (leaves t) = mset (input_leaves h1 ts)" by simp
  from leaves_symbols[OF this] nl(2) have "set (symbols t) = fst ` set (freq s)"
    by simp
  with freq_keys[of s] have "set s \<subseteq> set (symbols t)" by simp
  from roundtrip_tree[OF rt[unfolded t] this[unfolded t]] nd hf show ?thesis by blast
qed

lemma roundtrip_aaabbc:
  "\<exists>ts h1 root h2 tab. nodes bump (freq ''aaabbc'') [] = (ts, h1) \<and>
           huffman bump ts h1 = Inr (root, h2) \<and>
           codetable h2 root = Some (Inr tab) \<and>
           decode h2 root (encode tab ''aaabbc'') = Some (Inr ''aaabbc'')"
  using roundtrip_two_symbols[of bump "CHR ''a''" "''aaabbc''" "CHR ''b''" "[]"] bump_fresh
  by simp

section \<open>The decoder on trees\<close>

lemma as_bit_zero: "CHR ''0'' = as_bit b \<longleftrightarrow> CHR ''0'' = b"
  by (simp add: as_bit_def)

lemma walk_as_bit:
  "walk h p (map as_bit bits) =
     (case walk h p bits of Inl e \<Rightarrow> Inl e | Inr (q, rest) \<Rightarrow> Inr (q, map as_bit rest))"
proof (induction bits arbitrary: p)
  case Nil
  show ?case by (simp split: sum.splits)
next
  case (Cons b bits)
  show ?case
    by (simp add: as_bit_zero Cons split: sum.splits option.splits)
qed

lemma walk_progress:
  "walk h p bits = Inr (q, rest) \<Longrightarrow>
   length rest \<le> length bits \<and> (isleaf h p = Inr False \<longrightarrow> length rest < length bits)"
proof (induction bits arbitrary: p)
  case Nil
  then show ?case by (auto split: sum.splits if_splits)
next
  case (Cons b bits)
  show ?case
  proof (cases "isleaf h p")
    case (Inl e)
    with Cons.prems show ?thesis by simp
  next
    case (Inr lf)
    show ?thesis
    proof (cases lf)
      case True
      with Inr Cons.prems show ?thesis by simp
    next
      case False
      with Inr Cons.prems obtain n where n: "deref h p = Some n"
        "walk h (if CHR ''0'' = b then left n else right n) bits = Inr (q, rest)"
        by (auto split: option.splits)
      from Cons.IH[OF n(2)] show ?thesis by simp
    qed
  qed
qed

lemma walk_error_any: "isleaf h p = Inl e \<Longrightarrow> walk h p bits = Inl e"
  by (cases bits) auto

text \<open>
  \<open>decode\<close> does not tell a character other than \<open>'0'\<close> from \<open>'1'\<close>.
\<close>

lemma decode_loop_as_bit:
  "decode_loop h root (map as_bit bits) out = decode_loop h root bits out"
proof (cases "isleaf h root")
  case (Inl e)
  from walk_error_any[OF Inl] show ?thesis
    by (subst decode_loop.simps, subst (2) decode_loop.simps) simp
next
  case (Inr lf)
  show ?thesis
  proof (cases lf)
    case True
    show ?thesis
    proof (cases "bits = []")
      case True
      then show ?thesis by simp
    next
      case False
      with Inr \<open>lf\<close> show ?thesis by (simp add: decode_loop_leaf_root)
    qed
  next
    case False
    with Inr have nl: "isleaf h root = Inr False" by simp
    show ?thesis
    proof (induction "length bits" arbitrary: bits out rule: less_induct)
      case less
      show ?case
      proof (cases "bits = []")
        case True
        then show ?thesis by simp
      next
        case ne: False
        show ?thesis
        proof (cases "walk h root bits")
          case (Inl e)
          with ne show ?thesis
            by (subst decode_loop.simps, subst (2) decode_loop.simps) (simp add: walk_as_bit)
        next
          case (Inr qr)
          obtain q rest where qr: "qr = (q, rest)" by (cases qr)
          from walk_progress[OF Inr[unfolded qr]] nl have "length rest < length bits" by simp
          from less[OF this] have "decode_loop h root (map as_bit rest) out' =
              decode_loop h root rest out'" for out' .
          with ne Inr qr show ?thesis
            by (subst decode_loop.simps, subst (2) decode_loop.simps)
               (simp add: walk_as_bit split: option.splits)
        qed
      qed
    qed
  qed
qed

lemma walk_path:
  "tree_at h p t \<Longrightarrow> walk h p bits = Inr (q, rest) \<Longrightarrow>
   \<exists>path n. bits = path @ rest \<and> deref h q = Some n \<and> descend t path = Some (c n)"
proof (induction bits arbitrary: p t)
  case Nil
  then show ?case
    by (cases t) (auto simp: tree_at_isleaf tree_at_Leaf_iff)
next
  case (Cons b bits)
  show ?case
  proof (cases t)
    case (Leaf wt x)
    with Cons.prems show ?thesis
      by (auto simp: tree_at_isleaf tree_at_Leaf_iff)
  next
    case (Inner wt l r)
    with Cons.prems obtain n where n: "deref h p = Some n" "isleaf h p = Inr False"
      "tree_at h (left n) l" "tree_at h (right n) r"
      by (auto simp: tree_at_Inner_iff isleaf_def)
    let ?q = "if CHR ''0'' = b then left n else right n"
    let ?u = "if CHR ''0'' = b then l else r"
    from n have tq: "tree_at h ?q ?u" by simp
    from Cons.prems(2) n have "walk h ?q bits = Inr (q, rest)" by simp
    from Cons.IH[OF tq this] obtain path m where
      "bits = path @ rest" "deref h q = Some m" "descend ?u path = Some (c m)" by blast
    then have "b # bits = (b # path) @ rest \<and> deref h q = Some m \<and>
        descend t (b # path) = Some (c m)" using Inner by simp
    then show ?thesis by blast
  qed
qed

lemma walk_midpath:
  "tree_at h p t \<Longrightarrow> midpath t bits \<Longrightarrow> walk h p bits = Inl ReadPastEnd"
proof (induction bits arbitrary: p t)
  case Nil
  then show ?case by (cases t) (auto simp: tree_at_isleaf)
next
  case (Cons b bits)
  then obtain wt l r where t: "t = Inner wt l r" by (cases t) auto
  with Cons.prems obtain n where n: "deref h p = Some n" "isleaf h p = Inr False"
    "tree_at h (left n) l" "tree_at h (right n) r"
    by (auto simp: tree_at_Inner_iff isleaf_def)
  let ?q = "if CHR ''0'' = b then left n else right n"
  let ?u = "if CHR ''0'' = b then l else r"
  from n have tq: "tree_at h ?q ?u" by simp
  from Cons.prems(2) t have "midpath ?u bits" by simp
  from Cons.IH[OF tq this] n show ?case by simp
qed

lemma decode_loop_paths:
  assumes root: "tree_at h root (Inner wt l r)"
  shows "list_all2 (\<lambda>p x. descend (Inner wt l r) p = Some x) paths xs \<Longrightarrow>
     decode_loop h root (concat paths @ rest) out = decode_loop h root rest (out @ xs)"
proof (induction paths arbitrary: xs out)
  case Nil
  then show ?case by simp
next
  case (Cons p paths)
  then obtain x xs' where xs: "xs = x # xs'" and d: "descend (Inner wt l r) p = Some x"
    and rest: "list_all2 (\<lambda>p x. descend (Inner wt l r) p = Some x) paths xs'"
    by (auto simp: list_all2_Cons1)
  from d have ne: "p \<noteq> []" by auto
  from walk_descend[OF root d, of "concat paths @ rest"] obtain q n where
    wk: "walk h root (p @ concat paths @ rest) = Inr (q, concat paths @ rest)" and
    n: "deref h q = Some n" "c n = x" by blast
  from Cons.IH[OF rest, of "out @ [x]"] ne wk n xs show ?case
    by (subst decode_loop.simps) simp
qed

text \<open>
  A bit-string that ends in the middle of a path, after complete codes: \<open>decode\<close> reads
  past its end.
\<close>

lemma decode_truncated:
  assumes "tree_at h root t"
    and "list_all2 (\<lambda>p x. descend t p = Some x) paths xs"
    and "midpath t partial" and "partial \<noteq> []"
  shows "decode h root (concat paths @ partial) = Some (Inl ReadPastEnd)"
proof -
  from assms(3) obtain wt l r where t: "t = Inner wt l r" by (cases t) auto
  from walk_midpath[OF assms(1,3)] assms(4)
  have "decode_loop h root partial ([] @ xs) = Some (Inl ReadPastEnd)"
    by (subst decode_loop.simps) simp
  with decode_loop_paths[OF assms(1)[unfolded t] assms(2)[unfolded t], of partial "[]"]
  show ?thesis by (simp add: decode_def)
qed

text \<open>
  When \<open>decode\<close> returns, it has read the bit-string as a sequence of complete paths.
\<close>

lemma decode_loop_exact:
  assumes rt: "tree_at h root t"
  shows "decode_loop h root bits out0 = Some (Inr out) \<Longrightarrow>
     \<exists>paths xs. out = out0 @ xs \<and> bits = concat paths \<and>
        list_all2 (\<lambda>p x. descend t p = Some x) paths xs"
proof (induction "length bits" arbitrary: bits out0 rule: less_induct)
  case less
  show ?case
  proof (cases "bits = []")
    case True
    with less.prems have "out = out0" by (subst (asm) decode_loop.simps) simp
    with True show ?thesis by auto
  next
    case ne: False
    show ?thesis
    proof (cases t)
      case (Leaf wt x)
      with rt have "isleaf h root = Inr True" by (simp add: tree_at_isleaf)
      from decode_loop_leaf_root[OF this ne] less.prems show ?thesis by simp
    next
      case (Inner wt l r)
      with rt have nl: "isleaf h root = Inr False" by (simp add: tree_at_isleaf)
      from less.prems ne obtain q rest n where
        wk: "walk h root bits = Inr (q, rest)" and n: "deref h q = Some n" and
        dl: "decode_loop h root rest (out0 @ [c n]) = Some (Inr out)"
        by (subst (asm) decode_loop.simps) (auto split: sum.splits option.splits)
      from walk_progress[OF wk] nl have "length rest < length bits" by simp
      from less.hyps[OF this dl] obtain paths xs where
        1: "out = (out0 @ [c n]) @ xs" "rest = concat paths"
           "list_all2 (\<lambda>p x. descend t p = Some x) paths xs" by blast
      from walk_path[OF rt wk] n obtain path where
        2: "bits = path @ rest" "descend t path = Some (c n)" by auto
      from 1 2 have "out = out0 @ (c n # xs) \<and> bits = concat (path # paths) \<and>
          list_all2 (\<lambda>p x. descend t p = Some x) (path # paths) (c n # xs)" by simp
      then show ?thesis by blast
    qed
  qed
qed

lemma decode_abc_example: "decode abc_final 160 ''1x0y'' = Some (Inr ''ccb'')"
proof -
  have "list_all2 (\<lambda>p x. descend abc_tree p = Some x) [''1'', ''x'', ''0y''] ''ccb''"
    by (simp add: abc_tree_def)
  from decode_loop_paths[OF abc_tree_at[unfolded abc_tree_def] this[unfolded abc_tree_def], of "[]" "[]"]
  show ?thesis
    by (simp add: decode_def) (subst decode_loop.simps, simp)
qed

section \<open>Three leaves, whatever the allocator\<close>

lemma for_loop_three:
  "for_loop [p0, p1, p2] 3 0 =
     Inr (if p0 < p2 then (if p2 < p1 then [p1, p0, p2] else [p2, p1, p0]) else [p0, p1, p2])"
  by (simp add: for_loop.simps[of _ 3 0] for_loop.simps[of _ 3 "-1"] in_range_def swap_def
      std_swap_def)

lemma huffman_two:
  assumes fr: "fresh alloc" and a: "tree_at h q0 t0" and b: "tree_at h q1 t1"
  shows "\<exists>root h'. huffman alloc [q0, q1] h = Inr (root, h') \<and> extends h h' \<and>
           tree_at h' root (Inner (weight t1 + weight t0) t1 t0)"
proof -
  from merge_tree[OF fr b a] obtain m h' where
    mg: "merge alloc q1 q0 h = Inr (m, h')" and ext: "extends h h'" and
    rm: "tree_at h' m (Inner (weight t1 + weight t0) t1 t0)" by blast
  have "for_loop [q0, q1] 2 (-1) = Inr [q0, q1]" by (simp add: for_loop.simps[of _ 2 "-1"])
  with mg have "huffman_body alloc [q0, q1] h = Inr ([m], h')"
    by (simp add: huffman_body_def in_range_def)
  then have "huffman alloc [q0, q1] h = Inr (m, h')"
    by (simp add: huffman.simps[of alloc "[q0, q1]"] huffman.simps[of alloc "[m]"])
  with ext rm show ?thesis by blast
qed

lemma huffman_three_sorted:
  assumes fr: "fresh alloc" and 0: "tree_at h q0 t0" and 1: "tree_at h q1 t1"
    and 2: "tree_at h q2 t2" and fl: "for_loop [p0, p1, p2] 3 0 = Inr [q0, q1, q2]"
  shows "\<exists>root h'. huffman alloc [p0, p1, p2] h = Inr (root, h') \<and>
           tree_at h' root
             (Inner (weight t2 + weight t1 + weight t0) (Inner (weight t2 + weight t1) t2 t1) t0)"
proof -
  from merge_tree[OF fr 2 1] obtain m h1 where
    mg: "merge alloc q2 q1 h = Inr (m, h1)" and ext: "extends h h1" and
    rm: "tree_at h1 m (Inner (weight t2 + weight t1) t2 t1)" by blast
  from fl mg have body: "huffman_body alloc [p0, p1, p2] h = Inr ([q0, m], h1)"
    by (simp add: huffman_body_def in_range_def)
  from huffman_two[OF fr tree_at_extends[OF 0 ext] rm] obtain root h' where
    "huffman alloc [q0, m] h1 = Inr (root, h')"
    "tree_at h' root (Inner (weight (Inner (weight t2 + weight t1) t2 t1) + weight t0)
        (Inner (weight t2 + weight t1) t2 t1) t0)" by blast
  with body show ?thesis
    by (auto simp: huffman.simps[of alloc "[p0, p1, p2]"])
qed

text \<open>
  \<open>huffman\<close> on three pointers to trees: which tree stays out of the first merge is
  decided by the order of the addresses alone.
\<close>

lemma huffman_three:
  assumes fr: "fresh alloc" and 0: "tree_at h p0 t0" and 1: "tree_at h p1 t1"
    and 2: "tree_at h p2 t2"
  shows "\<exists>root h' wa wb. huffman alloc [p0, p1, p2] h = Inr (root, h') \<and>
           tree_at h' root
             (if p0 < p2 then
                (if p2 < p1 then Inner wa (Inner wb t2 t0) t1 else Inner wa (Inner wb t0 t1) t2)
              else Inner wa (Inner wb t2 t1) t0)"
proof -
  consider (a) "p0 < p2" "p2 < p1" | (b) "p0 < p2" "\<not> p2 < p1" | (c) "\<not> p0 < p2" by blast
  then show ?thesis
  proof cases
    case a
    then have "for_loop [p0, p1, p2] 3 0 = Inr [p1, p0, p2]" by (simp add: for_loop_three)
    from huffman_three_sorted[OF fr 1 0 2 this] a show ?thesis by auto
  next
    case b
    then have "for_loop [p0, p1, p2] 3 0 = Inr [p2, p1, p0]" by (simp add: for_loop_three)
    from huffman_three_sorted[OF fr 2 1 0 this] b show ?thesis by auto
  next
    case c
    then have "for_loop [p0, p1, p2] 3 0 = Inr [p0, p1, p2]" by (simp add: for_loop_three)
    from huffman_three_sorted[OF fr 0 1 2 this] c show ?thesis by auto
  qed
qed

lemma nodes_three:
  assumes fr: "fresh alloc"
  shows "\<exists>p0 p1 p2. (\<forall>k0 k1 k2. \<exists>h1.
           nodes alloc [(x0, k0), (x1, k1), (x2, k2)] h = ([p0, p1, p2], h1) \<and>
           tree_at h1 p0 (Leaf k0 x0) \<and> tree_at h1 p1 (Leaf k1 x1) \<and> tree_at h1 p2 (Leaf k2 x2))"
proof -
  define p0 where "p0 = alloc (map fst h)"
  define p1 where "p1 = alloc (p0 # map fst h)"
  define p2 where "p2 = alloc (p1 # p0 # map fst h)"
  have "\<exists>h1. nodes alloc [(x0, k0), (x1, k1), (x2, k2)] h = ([p0, p1, p2], h1) \<and>
           tree_at h1 p0 (Leaf k0 x0) \<and> tree_at h1 p1 (Leaf k1 x1) \<and> tree_at h1 p2 (Leaf k2 x2)"
    for k0 k1 k2
  proof -
    let ?h0 = "(p0, \<lparr>w = k0, c = x0, left = NULL, right = NULL\<rparr>) # h"
    let ?h1 = "(p1, \<lparr>w = k1, c = x1, left = NULL, right = NULL\<rparr>) # ?h0"
    let ?h2 = "(p2, \<lparr>w = k2, c = x2, left = NULL, right = NULL\<rparr>) # ?h1"
    have l0: "leaf alloc x0 k0 h = (p0, ?h0)" by (simp add: leaf_def new_Node_def Let_def p0_def)
    have l1: "leaf alloc x1 k1 ?h0 = (p1, ?h1)" by (simp add: leaf_def new_Node_def Let_def p1_def)
    have l2: "leaf alloc x2 k2 ?h1 = (p2, ?h2)" by (simp add: leaf_def new_Node_def Let_def p2_def)
    have nd: "nodes alloc [(x0, k0), (x1, k1), (x2, k2)] h = ([p0, p1, p2], ?h2)"
      by (simp add: nodes_def l0 l1 l2)
    note n0 = leaf_new[OF fr l0] and n1 = leaf_new[OF fr l1] and n2 = leaf_new[OF fr l2]
    have t0: "tree_at ?h0 p0 (Leaf k0 x0)"
      using leaf_tree_at[OF n0(1)] n0(2) by (auto simp: leaf_fields_def)
    have t1: "tree_at ?h1 p1 (Leaf k1 x1)"
      using leaf_tree_at[OF n1(1)] n1(2) by (auto simp: leaf_fields_def)
    have t2: "tree_at ?h2 p2 (Leaf k2 x2)"
      using leaf_tree_at[OF n2(1)] n2(2) by (auto simp: leaf_fields_def)
    from t0 t1 t2 n1(3) n2(3) nd show ?thesis
      by (blast intro: tree_at_extends)
  qed
  then show ?thesis by blast
qed

lemma body_three:
  assumes fr: "fresh alloc" and 1: "tree_at h q1 t1" and 2: "tree_at h q2 t2"
    and fl: "for_loop [p0, p1, p2] 3 0 = Inr [q0, q1, q2]"
  shows "\<exists>m h'. huffman_body alloc [p0, p1, p2] h = Inr ([q0, m], h') \<and>
           merge alloc q2 q1 h = Inr (m, h')"
proof -
  from merge_tree[OF fr 2 1] obtain m h1 where
    mg: "merge alloc q2 q1 h = Inr (m, h1)" by blast
  from fl mg have "huffman_body alloc [p0, p1, p2] h = Inr ([q0, m], h1)"
    by (simp add: huffman_body_def in_range_def)
  with mg show ?thesis by blast
qed

lemma freq_examples:
  "freq ''aaabbc'' = [(CHR ''a'', 3), (CHR ''b'', 2), (CHR ''c'', 1)]"
  "freq ''abbccc'' = [(CHR ''a'', 1), (CHR ''b'', 2), (CHR ''c'', 3)]"
  by (simp_all add: freq_def char_val_def)

lemma cost_three:
  "cost (Inner wa (Inner wb (Leaf k0 x0) (Leaf k1 x1)) (Leaf k2 x2)) =
     2 * sint k0 + 2 * sint k1 + sint k2"
  "cost (Inner wa (Leaf k2 x2) (Inner wb (Leaf k0 x0) (Leaf k1 x1))) =
     2 * sint k0 + 2 * sint k1 + sint k2"
  by (simp_all add: cost_def)

text \<open>
  Whatever the allocator, \<open>huffman\<close> builds a tree that is not optimal from \<open>"aaabbc"\<close> or
  from \<open>"abbccc"\<close>: the leaf that is kept out of the first merge is chosen by the addresses,
  which are the same for both inputs, and it is the heaviest leaf in at most one of them.
\<close>

lemma not_optimal_any_allocator:
  assumes fr: "fresh alloc"
  shows "\<exists>s\<in>{''aaabbc'', ''abbccc''}. \<exists>ts h1 root h2 t t'.
           nodes alloc (freq s) h = (ts, h1) \<and> huffman alloc ts h1 = Inr (root, h2) \<and>
           tree_at h2 root t \<and> mset (leaves t') = mset (leaves t) \<and> cost t' < cost t"
proof -
  let ?a = "CHR ''a''" and ?b = "CHR ''b''" and ?c = "CHR ''c''"
  from nodes_three[OF fr, of ?a ?b ?c h] obtain p0 p1 p2 where
    nd: "\<And>k0 k1 k2. \<exists>h1. nodes alloc [(?a, k0), (?b, k1), (?c, k2)] h = ([p0, p1, p2], h1) \<and>
           tree_at h1 p0 (Leaf k0 ?a) \<and> tree_at h1 p1 (Leaf k1 ?b) \<and> tree_at h1 p2 (Leaf k2 ?c)"
    by blast
  from nd[of 3 2 1] obtain h1 where
    n1: "nodes alloc (freq ''aaabbc'') h = ([p0, p1, p2], h1)" and
    t1: "tree_at h1 p0 (Leaf 3 ?a)" "tree_at h1 p1 (Leaf 2 ?b)" "tree_at h1 p2 (Leaf 1 ?c)"
    by (auto simp: freq_examples)
  from nd[of 1 2 3] obtain h1' where
    n2: "nodes alloc (freq ''abbccc'') h = ([p0, p1, p2], h1')" and
    t2: "tree_at h1' p0 (Leaf 1 ?a)" "tree_at h1' p1 (Leaf 2 ?b)" "tree_at h1' p2 (Leaf 3 ?c)"
    by (auto simp: freq_examples)
  from huffman_three[OF fr t1] obtain root h2 wa wb where
    r1: "huffman alloc [p0, p1, p2] h1 = Inr (root, h2)" and
    s1: "tree_at h2 root
             (if p0 < p2 then
                (if p2 < p1 then Inner wa (Inner wb (Leaf 1 ?c) (Leaf 3 ?a)) (Leaf 2 ?b)
                 else Inner wa (Inner wb (Leaf 3 ?a) (Leaf 2 ?b)) (Leaf 1 ?c))
              else Inner wa (Inner wb (Leaf 1 ?c) (Leaf 2 ?b)) (Leaf 3 ?a))" by blast
  from huffman_three[OF fr t2] obtain root' h2' wa' wb' where
    r2: "huffman alloc [p0, p1, p2] h1' = Inr (root', h2')" and
    s2: "tree_at h2' root'
             (if p0 < p2 then
                (if p2 < p1 then Inner wa' (Inner wb' (Leaf 3 ?c) (Leaf 1 ?a)) (Leaf 2 ?b)
                 else Inner wa' (Inner wb' (Leaf 1 ?a) (Leaf 2 ?b)) (Leaf 3 ?c))
              else Inner wa' (Inner wb' (Leaf 3 ?c) (Leaf 2 ?b)) (Leaf 1 ?a))" by blast
  show ?thesis
  proof (cases "p0 < p2")
    case True
    let ?t' = "Inner 6 (Leaf 3 ?a) (Inner 3 (Leaf 2 ?b) (Leaf 1 ?c))"
    let ?t = "if p2 < p1 then Inner wa (Inner wb (Leaf 1 ?c) (Leaf 3 ?a)) (Leaf 2 ?b)
                 else Inner wa (Inner wb (Leaf 3 ?a) (Leaf 2 ?b)) (Leaf 1 ?c)"
    from True s1 have "tree_at h2 root ?t" by simp
    moreover have "mset (leaves ?t') = mset (leaves ?t)" by simp
    moreover have "cost ?t' < cost ?t" by (simp add: cost_three)
    ultimately have "\<exists>ts h1 root h2 t t'.
           nodes alloc (freq ''aaabbc'') h = (ts, h1) \<and> huffman alloc ts h1 = Inr (root, h2) \<and>
           tree_at h2 root t \<and> mset (leaves t') = mset (leaves t) \<and> cost t' < cost t"
      using n1 r1 by blast
    then show ?thesis by blast
  next
    case False
    let ?t' = "Inner 6 (Leaf 3 ?c) (Inner 3 (Leaf 2 ?b) (Leaf 1 ?a))"
    let ?t = "Inner wa' (Inner wb' (Leaf 3 ?c) (Leaf 2 ?b)) (Leaf 1 ?a)"
    from False s2 have "tree_at h2' root' ?t" by simp
    moreover have "mset (leaves ?t') = mset (leaves ?t)" by simp
    moreover have "cost ?t' < cost ?t" by (simp add: cost_three)
    ultimately have "\<exists>ts h1 root h2 t t'.
           nodes alloc (freq ''abbccc'') h = (ts, h1) \<and> huffman alloc ts h1 = Inr (root, h2) \<and>
           tree_at h2 root t \<and> mset (leaves t') = mset (leaves t) \<and> cost t' < cost t"
      using n2 r2 by blast
    then show ?thesis by blast
  qed
qed

text \<open>
  Likewise the first round, whatever the allocator: on \<open>"aaabbc"\<close> or on \<open>"abbccc"\<close> it
  keeps a leaf \<open>u\<close> in the vector that is lighter than a leaf \<open>v\<close> it merges.
\<close>

lemma selection_any_allocator:
  assumes fr: "fresh alloc"
  shows "\<exists>s\<in>{''aaabbc'', ''abbccc''}. \<exists>ts h1 u m h2 a b v ku xu kv xv.
           nodes alloc (freq s) h = (ts, h1) \<and>
           huffman_body alloc ts h1 = Inr ([u, m], h2) \<and> merge alloc a b h1 = Inr (m, h2) \<and>
           v \<in> {a, b} \<and>
           tree_at h1 u (Leaf ku xu) \<and> tree_at h1 v (Leaf kv xv) \<and> sint ku < sint kv"
proof -
  let ?a = "CHR ''a''" and ?b = "CHR ''b''" and ?c = "CHR ''c''"
  from nodes_three[OF fr, of ?a ?b ?c h] obtain p0 p1 p2 where
    nd: "\<And>k0 k1 k2. \<exists>h1. nodes alloc [(?a, k0), (?b, k1), (?c, k2)] h = ([p0, p1, p2], h1) \<and>
           tree_at h1 p0 (Leaf k0 ?a) \<and> tree_at h1 p1 (Leaf k1 ?b) \<and> tree_at h1 p2 (Leaf k2 ?c)"
    by blast
  from nd[of 3 2 1] obtain h1 where
    n1: "nodes alloc (freq ''aaabbc'') h = ([p0, p1, p2], h1)" and
    t1: "tree_at h1 p0 (Leaf 3 ?a)" "tree_at h1 p1 (Leaf 2 ?b)" "tree_at h1 p2 (Leaf 1 ?c)"
    by (auto simp: freq_examples)
  from nd[of 1 2 3] obtain h1' where
    n2: "nodes alloc (freq ''abbccc'') h = ([p0, p1, p2], h1')" and
    t2: "tree_at h1' p0 (Leaf 1 ?a)" "tree_at h1' p1 (Leaf 2 ?b)" "tree_at h1' p2 (Leaf 3 ?c)"
    by (auto simp: freq_examples)
  consider (x) "p0 < p2" "p2 < p1" | (y) "p0 < p2" "\<not> p2 < p1" | (z) "\<not> p0 < p2" by blast
  then show ?thesis
  proof cases
    case x
    then have fl: "for_loop [p0, p1, p2] 3 0 = Inr [p1, p0, p2]" by (simp add: for_loop_three)
    from body_three[OF fr t1(1) t1(3) fl] obtain m h2 where
      "huffman_body alloc [p0, p1, p2] h1 = Inr ([p1, m], h2)" "merge alloc p2 p0 h1 = Inr (m, h2)"
      by blast
    moreover have "sint (2 :: 32 word) < sint (3 :: 32 word)" by simp
    ultimately have "\<exists>ts h1 u m h2 a b v ku xu kv xv.
           nodes alloc (freq ''aaabbc'') h = (ts, h1) \<and>
           huffman_body alloc ts h1 = Inr ([u, m], h2) \<and> merge alloc a b h1 = Inr (m, h2) \<and>
           v \<in> {a, b} \<and>
           tree_at h1 u (Leaf ku xu) \<and> tree_at h1 v (Leaf kv xv) \<and> sint ku < sint kv"
      using n1 t1(1,2) by blast
    then show ?thesis by blast
  next
    case y
    then have fl: "for_loop [p0, p1, p2] 3 0 = Inr [p2, p1, p0]" by (simp add: for_loop_three)
    from body_three[OF fr t1(2) t1(1) fl] obtain m h2 where
      "huffman_body alloc [p0, p1, p2] h1 = Inr ([p2, m], h2)" "merge alloc p0 p1 h1 = Inr (m, h2)"
      by blast
    moreover have "sint (1 :: 32 word) < sint (3 :: 32 word)" by simp
    ultimately have "\<exists>ts h1 u m h2 a b v ku xu kv xv.
           nodes alloc (freq ''aaabbc'') h = (ts, h1) \<and>
           huffman_body alloc ts h1 = Inr ([u, m], h2) \<and> merge alloc a b h1 = Inr (m, h2) \<and>
           v \<in> {a, b} \<and>
           tree_at h1 u (Leaf ku xu) \<and> tree_at h1 v (Leaf kv xv) \<and> sint ku < sint kv"
      using n1 t1(1,3) by blast
    then show ?thesis by blast
  next
    case z
    then have fl: "for_loop [p0, p1, p2] 3 0 = Inr [p0, p1, p2]" by (simp add: for_loop_three)
    from body_three[OF fr t2(2) t2(3) fl] obtain m h2 where
      "huffman_body alloc [p0, p1, p2] h1' = Inr ([p0, m], h2)" "merge alloc p2 p1 h1' = Inr (m, h2)"
      by blast
    moreover have "sint (1 :: 32 word) < sint (3 :: 32 word)" by simp
    ultimately have "\<exists>ts h1 u m h2 a b v ku xu kv xv.
           nodes alloc (freq ''abbccc'') h = (ts, h1) \<and>
           huffman_body alloc ts h1 = Inr ([u, m], h2) \<and> merge alloc a b h1 = Inr (m, h2) \<and>
           v \<in> {a, b} \<and>
           tree_at h1 u (Leaf ku xu) \<and> tree_at h1 v (Leaf kv xv) \<and> sint ku < sint kv"
      using n2 t2(1,3) by blast
    then show ?thesis by blast
  qed
qed

section \<open>Weights as integers\<close>

lemma sint_add_no_overflow:
  fixes a b :: "32 word"
  assumes "0 \<le> sint a" "0 \<le> sint b" "sint a + sint b < 2 ^ 31"
  shows "sint (a + b) = sint a + sint b"
proof -
  have "sint (a + b) = signed_take_bit (LENGTH(32) - 1) (sint a + sint b)"
    by (rule sint_word_ariths)
  also have "\<dots> = sint a + sint b"
    using assms by (intro signed_take_bit_int_eq_self) simp_all
  finally show ?thesis .
qed

lemma total_nonneg: "list_all (\<lambda>e. 0 \<le> sint (snd e)) ls \<Longrightarrow> 0 \<le> total ls"
  by (induction ls) (auto simp: total_def)

lemma total_append: "total (xs @ ys) = total xs + total ys"
  by (simp add: total_def)

lemma weights_as_integers:
  "weights_add_up t \<Longrightarrow> counts (leaves t) \<Longrightarrow>
   sint (weight t) = total (leaves t) \<and> int_weights_add_up t"
proof (induction t)
  case (Leaf wt x)
  show ?case by (simp add: total_def)
next
  case (Inner wt l r)
  from Inner.prems(2) have nl: "list_all (\<lambda>e. 0 \<le> sint (snd e)) (leaves l)"
    and nr: "list_all (\<lambda>e. 0 \<le> sint (snd e)) (leaves r)"
    and tot: "total (leaves l) + total (leaves r) < 2 ^ 31"
    by (simp_all add: counts_def total_append)
  from total_nonneg[OF nl] total_nonneg[OF nr] tot have
    cl: "counts (leaves l)" and cr: "counts (leaves r)"
    using nl nr by (simp_all add: counts_def)
  from Inner.prems(1) have wl: "weights_add_up l" and wr: "weights_add_up r"
    and wt: "wt = weight l + weight r" by simp_all
  from Inner.IH(1)[OF wl cl] Inner.IH(2)[OF wr cr] have
    sl: "sint (weight l) = total (leaves l)" and sr: "sint (weight r) = total (leaves r)"
    and il: "int_weights_add_up l" and ir: "int_weights_add_up r" by simp_all
  from total_nonneg[OF nl] total_nonneg[OF nr] tot sl sr
  have "sint (weight l + weight r) = sint (weight l) + sint (weight r)"
    by (intro sint_add_no_overflow) simp_all
  with wt sl sr il ir show ?case by (simp add: total_append)
qed

lemma counts_mset: "mset xs = mset ys \<Longrightarrow> counts xs = counts ys"
proof -
  assume eq: "mset xs = mset ys"
  then have "set xs = set ys" by (rule mset_eq_setD)
  then have 1: "list_all (\<lambda>e. 0 \<le> sint (snd e)) xs = list_all (\<lambda>e. 0 \<le> sint (snd e)) ys"
    by (simp add: list_all_iff)
  have "sum_mset (image_mset (\<lambda>e. sint (snd e)) (mset xs)) =
        sum_mset (image_mset (\<lambda>e. sint (snd e)) (mset ys))" using eq by simp
  then have 2: "total xs = total ys"
    by (simp add: total_def flip: sum_mset_sum_list mset_map)
  from 1 2 show ?thesis by (simp add: counts_def)
qed

text \<open>
  The histogram of an input shorter than \<open>2 ^ 31\<close> holds the counts as they are: no
  count has wrapped around, and they add up to the length of the input.
\<close>

lemma incr_counts:
  "list_all (\<lambda>e. 0 \<le> sint (snd e)) hist \<Longrightarrow> total hist + 1 < 2 ^ 31 \<Longrightarrow>
   list_all (\<lambda>e. 0 \<le> sint (snd e)) (incr x hist) \<and> total (incr x hist) = total hist + 1"
proof (induction x hist rule: incr.induct)
  case (1 x)
  show ?case by (simp add: total_def)
next
  case (2 x y n hist)
  from "2.prems"(1) have nn: "0 \<le> sint n" and rest: "list_all (\<lambda>e. 0 \<le> sint (snd e)) hist"
    by simp_all
  from total_nonneg[OF rest] have tr: "0 \<le> total hist" .
  have tc: "total ((y, n) # hist) = sint n + total hist" by (simp add: total_def)
  show ?case
  proof (cases "x = y")
    case True
    from nn tr "2.prems"(2) tc have "sint (n + 1) = sint n + sint (1 :: 32 word)"
      by (intro sint_add_no_overflow) simp_all
    then have "sint (n + 1) = sint n + 1" by simp
    with True nn rest show ?thesis by (simp add: total_def)
  next
    case ne: False
    show ?thesis
    proof (cases "char_val x < char_val y")
      case True
      with ne "2.prems"(1) show ?thesis by (simp add: total_def)
    next
      case False
      from nn "2.prems"(2) tc have "total hist + 1 < 2 ^ 31" by simp
      from "2.IH"[OF ne False rest this] ne False nn show ?thesis
        by (simp add: total_def)
    qed
  qed
qed

lemma fold_incr_counts:
  "list_all (\<lambda>e. 0 \<le> sint (snd e)) hist \<Longrightarrow> total hist + int (length s) < 2 ^ 31 \<Longrightarrow>
   list_all (\<lambda>e. 0 \<le> sint (snd e)) (fold incr s hist) \<and>
   total (fold incr s hist) = total hist + int (length s)"
proof (induction s arbitrary: hist)
  case Nil
  then show ?case by simp
next
  case (Cons x s)
  from Cons.prems(2) have "total hist + 1 < 2 ^ 31" by simp
  from incr_counts[OF Cons.prems(1) this, of x] have
    1: "list_all (\<lambda>e. 0 \<le> sint (snd e)) (incr x hist)" and
    2: "total (incr x hist) = total hist + 1" by simp_all
  from 2 Cons.prems(2) have "total (incr x hist) + int (length s) < 2 ^ 31" by simp
  from Cons.IH[OF 1 this] 2 show ?case by simp
qed

lemma freq_counts:
  assumes "length s < 2 ^ 31"
  shows "counts (freq s)" and "total (freq s) = int (length s)"
proof -
  from assms have "total [] + int (length s) < 2 ^ 31" by (simp add: total_def)
  from fold_incr_counts[OF _ this] have
    "list_all (\<lambda>e. 0 \<le> sint (snd e)) (freq s)" and t: "total (freq s) = int (length s)"
    by (simp_all add: freq_def total_def)
  with assms show "counts (freq s)" by (simp add: counts_def)
  from t show "total (freq s) = int (length s)" .
qed

section \<open>Claims\<close>

text \<open>
  C1 fails on the non-empty input \<open>"a"\<close>. The tree is a single leaf, the code of \<open>a\<close> is
  the empty bit-string, so the encoding of \<open>"a"\<close> is empty, and decoding it gives the empty
  string, not \<open>"a"\<close>. (By \<open>single_leaf_pipeline\<close> above this is so for every non-empty
  input over one symbol and every allocator; by \<open>roundtrip_two_symbols\<close> the round trip
  holds on every input with two different symbols.)
\<close>

theorem roundtrip_fails:
  "nodes bump (freq ''a'') [] = ([32], a_heap) \<and>
   huffman bump [32] a_heap = Inr (32, a_heap) \<and>
   codetable a_heap 32 = Some (Inr [CHR ''a'' \<mapsto> []]) \<and>
   encode [CHR ''a'' \<mapsto> []] ''a'' = [] \<and>
   decode a_heap 32 (encode [CHR ''a'' \<mapsto> []] ''a'') = Some (Inr []) \<and>
   decode a_heap 32 (encode [CHR ''a'' \<mapsto> []] ''a'') \<noteq> Some (Inr ''a'')"
proof -
  have nd: "nodes bump (freq ''a'') [] = ([32], a_heap)"
    by (simp add: nodes_def freq_def leaf_def new_Node_def bump_def a_heap_def)
  from single_leaf_pipeline[OF bump_fresh, of "''a''" "CHR ''a''" "[]"] nd
  show ?thesis by simp
qed

text \<open>
  C2 fails on the input \<open>"aaabbc"\<close>. Its leaves \<open>a\<close>, \<open>b\<close>, \<open>c\<close> weigh 3, 2 and 1, so by
  \<open>Node::operator<\<close> the leaf \<open>c\<close> is less than \<open>b\<close> and \<open>b\<close> less than \<open>a\<close>. With the leaves
  at ascending addresses the first round of \<open>huffman\<close> merges \<open>a\<close> and \<open>b\<close>, the two
  heaviest, and keeps \<open>c\<close>. With the same leaves in the same order in the vector, but at
  descending addresses, it merges \<open>c\<close> and \<open>b\<close>: the selection follows the addresses and
  never looks at a weight. (\<open>selection_any_allocator\<close> above shows a wrong selection for
  every allocator.)
\<close>

theorem huffman_selects_by_address:
  "nodes bump (freq ''aaabbc'') [] = ([32, 64, 96], abc_heap) \<and>
   map (deref abc_heap) [32, 64, 96] =
     [Some \<lparr>w = 3, c = CHR ''a'', left = NULL, right = NULL\<rparr>,
      Some \<lparr>w = 2, c = CHR ''b'', left = NULL, right = NULL\<rparr>,
      Some \<lparr>w = 1, c = CHR ''c'', left = NULL, right = NULL\<rparr>] \<and>
   Node_less \<lparr>w = 1, c = CHR ''c'', left = NULL, right = NULL\<rparr>
     \<lparr>w = 2, c = CHR ''b'', left = NULL, right = NULL\<rparr> \<and>
   Node_less \<lparr>w = 2, c = CHR ''b'', left = NULL, right = NULL\<rparr>
     \<lparr>w = 3, c = CHR ''a'', left = NULL, right = NULL\<rparr> \<and>
   huffman_body bump [32, 64, 96] abc_heap =
     Inr ([96, 128], (128, \<lparr>w = 5, c = CHR 0x00, left = 32, right = 64\<rparr>) # abc_heap) \<and>
   map (deref cba_heap) [96, 64, 32] =
     [Some \<lparr>w = 3, c = CHR ''a'', left = NULL, right = NULL\<rparr>,
      Some \<lparr>w = 2, c = CHR ''b'', left = NULL, right = NULL\<rparr>,
      Some \<lparr>w = 1, c = CHR ''c'', left = NULL, right = NULL\<rparr>] \<and>
   huffman_body bump [96, 64, 32] cba_heap =
     Inr ([96, 128], (128, \<lparr>w = 3, c = CHR 0x00, left = 32, right = 64\<rparr>) # cba_heap)"
  by (simp add: nodes_abc body_abc body_cba Node_less_def)
     (simp add: deref_def abc_heap_def cba_heap_def NULL_def)

text \<open>
  C3 fails on the input \<open>"aaabbc"\<close>. The tree \<open>huffman\<close> builds has the weighted path
  length 11; another tree over the same leaves has 9. (\<open>not_optimal_any_allocator\<close> above
  shows a tree that is not optimal for every allocator.)
\<close>

theorem huffman_not_optimal:
  "nodes bump (freq ''aaabbc'') [] = ([32, 64, 96], abc_heap) \<and>
   huffman bump [32, 64, 96] abc_heap = Inr (160, abc_final) \<and>
   tree_at abc_final 160 abc_tree \<and> cost abc_tree = 11 \<and>
   mset (leaves (Inner 6 (Leaf 3 CHR ''a'') (Inner 3 (Leaf 2 CHR ''b'') (Leaf 1 CHR ''c''))))
     = mset (leaves abc_tree) \<and>
   cost (Inner 6 (Leaf 3 CHR ''a'') (Inner 3 (Leaf 2 CHR ''b'') (Leaf 1 CHR ''c''))) = 9"
  by (simp add: nodes_abc huffman_abc abc_tree_at) (simp add: cost_def abc_tree_def)

text \<open>
  C4, amended. \<open>encode\<close> never fails: for every table and every input it returns the
  concatenation, in input order, of what \<open>codes[x]\<close> yields for each symbol, and that is
  the empty bit-string for a symbol that has no entry in the table.
\<close>

theorem encode_total:
  "encode codes s = concat (map (code_of codes) s) \<and>
   code_of codes x = (case codes x of None \<Rightarrow> [] | Some bits \<Rightarrow> bits)"
  by (simp add: encode_def encode_loop_code_of code_of_def)

text \<open>
  C4, as stated, fails on the table built from \<open>"ab"\<close> and the input \<open>"abc"\<close>: the symbol
  \<open>c\<close> has no entry in the table, and \<open>encode\<close> returns the bit-string \<open>"10"\<close>.
\<close>

theorem encode_unknown_counterexample:
  "nodes bump (freq ''ab'') [] = ([32, 64], tl ab_heap) \<and>
   huffman bump [32, 64] (tl ab_heap) = Inr (96, ab_heap) \<and>
   codetable ab_heap 96 = Some (Inr [CHR ''b'' \<mapsto> ''0'', CHR ''a'' \<mapsto> ''1'']) \<and>
   [CHR ''b'' \<mapsto> ''0'', CHR ''a'' \<mapsto> ''1''] CHR ''c'' = None \<and>
   encode [CHR ''b'' \<mapsto> ''0'', CHR ''a'' \<mapsto> ''1''] ''abc'' = ''10''"
  by (simp add: huffman_ab codetable_ab encode_def)

text \<open>
  C5, amended. \<open>decode\<close> makes no check of the bit-string and signals no error. For every
  tree and bit-string: (1) a character that is not \<open>'0'\<close> is read as \<open>'1'\<close>, so the result
  is that of the bit-string with every such character replaced by \<open>'1'\<close>; (2) when
  \<open>decode\<close> returns, the bit-string is exactly the concatenation of the paths to the
  leaves whose symbols it returns, so no bits are left over; (3) when the bit-string ends
  in the middle of a path, after any number of complete codes, \<open>decode\<close> reads past the
  end of the string, which is undefined behaviour.
\<close>

theorem decode_unchecked:
  assumes "tree_at h root t"
  shows "decode h root (map as_bit bits) = decode h root bits \<and>
         (\<forall>out. decode h root bits = Some (Inr out) \<longrightarrow>
            (\<exists>paths. bits = concat paths \<and>
               list_all2 (\<lambda>p x. descend t p = Some x) paths out)) \<and>
         (\<forall>paths xs partial.
            list_all2 (\<lambda>p x. descend t p = Some x) paths xs \<and> midpath t partial \<and>
            partial \<noteq> [] \<longrightarrow>
            decode h root (concat paths @ partial) = Some (Inl ReadPastEnd))"
proof (intro conjI allI impI)
  show "decode h root (map as_bit bits) = decode h root bits"
    by (simp add: decode_def decode_loop_as_bit)
next
  fix out assume "decode h root bits = Some (Inr out)"
  then have "decode_loop h root bits [] = Some (Inr out)" by (simp add: decode_def)
  from decode_loop_exact[OF assms this]
  show "\<exists>paths. bits = concat paths \<and> list_all2 (\<lambda>p x. descend t p = Some x) paths out"
    by auto
next
  fix paths xs partial
  assume "list_all2 (\<lambda>p x. descend t p = Some x) paths xs \<and> midpath t partial \<and> partial \<noteq> []"
  then show "decode h root (concat paths @ partial) = Some (Inl ReadPastEnd)"
    using decode_truncated[OF assms] by blast
qed

text \<open>
  The three parts of C5 on the tree built from \<open>"aaabbc"\<close>, with the bit-strings
  \<open>"1x0y"\<close> and \<open>"1010"\<close>.
\<close>

theorem decode_unchecked_witness:
  "decode abc_final 160 (map as_bit ''1x0y'') = decode abc_final 160 ''1x0y'' \<and>
   (\<exists>paths. ''1x0y'' = concat paths \<and>
      list_all2 (\<lambda>p x. descend abc_tree p = Some x) paths ''ccb'') \<and>
   decode abc_final 160 (concat [''1'', ''01''] @ ''0'') = Some (Inl ReadPastEnd)"
proof -
  note th = decode_unchecked[OF abc_tree_at, of "''1x0y''"]
  have pre: "list_all2 (\<lambda>p x. descend abc_tree p = Some x) [''1'', ''01''] ''cb'' \<and>
      midpath abc_tree ''0'' \<and> ''0'' \<noteq> []"
    by (simp add: abc_tree_def)
  from th pre have "decode abc_final 160 (concat [''1'', ''01''] @ ''0'') = Some (Inl ReadPastEnd)"
    by blast
  with th decode_abc_example show ?thesis by blast
qed

text \<open>
  C5, as stated, fails on the tree built from \<open>"aaabbc"\<close> (codes \<open>a = 00\<close>, \<open>b = 01\<close>,
  \<open>c = 1\<close>) and the bit-string \<open>"1x0y"\<close>: the characters \<open>x\<close> and \<open>y\<close> are neither
  \<open>'0'\<close> nor \<open>'1'\<close>, and \<open>decode\<close> returns \<open>"ccb"\<close>.
\<close>

theorem decode_malformed_counterexample:
  "huffman bump [32, 64, 96] abc_heap = Inr (160, abc_final) \<and>
   decode abc_final 160 ''1x0y'' = Some (Inr ''ccb'')"
  by (simp add: huffman_abc decode_abc_example)

text \<open>
  C6, amended. Calling \<open>huffman\<close> with an empty vector is invalid and nothing is
  signalled: whatever the allocator and the heap, the loop is skipped and the outcome is
  the undefined behaviour of \<open>ts.front()\<close> on an empty vector.
\<close>

theorem huffman_empty: "huffman alloc [] h = Inl FrontOfEmpty"
  by (simp add: huffman.simps[of alloc "[]" h])

text \<open>
  C6, as stated, fails on the empty vector: no construction error is signalled, the
  outcome is undefined behaviour.
\<close>

theorem huffman_empty_counterexample: "huffman bump [] [] = Inl FrontOfEmpty"
  by (simp add: huffman.simps[of bump "[]" "[]"])

text \<open>
  C7. Prefix-freeness: for the tree \<open>huffman\<close> builds from a non-empty vector of leaves,
  \<open>codetable\<close> returns a table whose keys are the input symbols, and for two different
  symbols of the table neither code is a prefix of the other.
\<close>

theorem codes_prefix_free:
  assumes "fresh alloc" and "ts \<noteq> []" and "\<forall>p\<in>set ts. isleaf h p = Inr True"
  shows "\<exists>root h' tab. huffman alloc ts h = Inr (root, h') \<and>
           codetable h' root = Some (Inr tab) \<and>
           dom tab = fst ` set (input_leaves h ts) \<and>
           (\<forall>a b x y. a \<noteq> b \<and> tab a = Some x \<and> tab b = Some y \<longrightarrow>
              \<not> prefix x y \<and> \<not> prefix y x)"
proof -
  from leaves_rep[OF assms(3)] obtain tsA where
    rep: "list_all2 (tree_at h) ts tsA" and lv: "all_leaves tsA = mset (input_leaves h ts)"
    by blast
  from huffman_tree[OF assms(1,2) rep] obtain root h' t where
    hf: "huffman alloc ts h = Inr (root, h')" and rt: "tree_at h' root t" and
    ml: "mset (leaves t) = all_leaves tsA" by blast
  let ?tab = "codetab_tree t [] Map.empty"
  from codetab_tree_at[OF rt] have ct: "codetable h' root = Some (Inr ?tab)"
    by (simp add: codetable_def)
  from ml lv have "set (symbols t) = fst ` set (input_leaves h ts)"
    by (simp add: leaves_symbols)
  then have dm: "dom ?tab = fst ` set (input_leaves h ts)"
    by (simp add: codetab_tree_dom)
  have path: "descend t x = Some a" if "?tab a = Some x" for a x
  proof -
    from that have "a \<in> set (symbols t)"
      using codetab_tree_other[of a t "[]" Map.empty] by (cases "a \<in> set (symbols t)") auto
    from codetab_tree_code[OF this, of "[]" Map.empty] that show ?thesis by auto
  qed
  have np: "\<not> prefix x y" if "a \<noteq> b" "?tab a = Some x" "?tab b = Some y" for a b x y
  proof
    assume "prefix x y"
    then obtain q where y: "y = x @ q" by (auto simp: prefix_def)
    from path[OF that(2)] path[OF that(3)] have dx: "descend t x = Some a"
      and dy: "descend t (x @ q) = Some b" by (simp_all add: y)
    from descend_prefix[OF dx dy] have "q = []" .
    with dx dy that(1) show False by simp
  qed
  have "\<forall>a b x y. a \<noteq> b \<and> ?tab a = Some x \<and> ?tab b = Some y \<longrightarrow>
      \<not> prefix x y \<and> \<not> prefix y x"
    using np by (metis (no_types))
  with hf ct dm show ?thesis by blast
qed

text \<open>C7 on the three leaves of \<open>"aaabbc"\<close>.\<close>

theorem codes_prefix_free_witness:
  "\<exists>root h' tab. huffman bump [32, 64, 96] abc_heap = Inr (root, h') \<and>
           codetable h' root = Some (Inr tab) \<and>
           dom tab = fst ` set (input_leaves abc_heap [32, 64, 96]) \<and>
           (\<forall>a b x y. a \<noteq> b \<and> tab a = Some x \<and> tab b = Some y \<longrightarrow>
              \<not> prefix x y \<and> \<not> prefix y x)"
  using codes_prefix_free[of bump "[32, 64, 96]" abc_heap] bump_fresh abc_leaves
  by simp

text \<open>
  C8. Structural invariants of the tree \<open>huffman\<close> returns for a non-empty vector of
  leaves: the root stands for a tree in the returned heap, so every node reached from it
  is a leaf or has exactly two children; the tree is a single leaf when there is one input
  leaf and an inner node otherwise; every inner node's weight is the sum of its children's
  weights, in the program's 32-bit \<open>int\<close> addition and, when the input weights are counts
  (not negative, with a total below \<open>2 ^ 31\<close>), as integers; the leaves of the tree are
  exactly the input leaves, each once, so when the input symbols are distinct (one leaf per
  symbol) every input symbol is in exactly one leaf. The leaves that \<open>nodes(freq(s))\<close>
  builds are of this kind: one per symbol (\<open>nodes_freq_symbols\<close>), weighing counts
  (\<open>freq_counts\<close>).
\<close>

theorem huffman_invariants:
  assumes "fresh alloc" and "ts \<noteq> []" and "\<forall>p\<in>set ts. isleaf h p = Inr True"
  shows "\<exists>root h' t. huffman alloc ts h = Inr (root, h') \<and> tree_at h' root t \<and>
           (length ts = 1 \<longrightarrow> (\<exists>wt x. t = Leaf wt x)) \<and>
           (2 \<le> length ts \<longrightarrow> (\<exists>wt l r. t = Inner wt l r)) \<and>
           weights_add_up t \<and>
           (counts (input_leaves h ts) \<longrightarrow> int_weights_add_up t) \<and>
           mset (leaves t) = mset (input_leaves h ts) \<and>
           (distinct (map fst (input_leaves h ts)) \<longrightarrow>
              distinct (symbols t) \<and> set (symbols t) = set (map fst (input_leaves h ts)))"
proof -
  from leaves_rep[OF assms(3)] obtain tsA where
    rep: "list_all2 (tree_at h) ts tsA" and lv: "all_leaves tsA = mset (input_leaves h ts)" and
    wa: "\<forall>u\<in>set tsA. weights_add_up u" by blast
  from huffman_tree[OF assms(1,2) rep] obtain root h' t where
    hf: "huffman alloc ts h = Inr (root, h')" and rt: "tree_at h' root t" and
    ml: "mset (leaves t) = all_leaves tsA" and
    w: "(\<forall>u\<in>set tsA. weights_add_up u) \<longrightarrow> weights_add_up t" and
    inner: "2 \<le> length ts \<longrightarrow> (\<exists>wt l r. t = Inner wt l r)" and
    one: "length ts = 1 \<longrightarrow> root = hd ts \<and> h' = h \<and> t = hd tsA" by blast
  have single: "length ts = 1 \<longrightarrow> (\<exists>wt x. t = Leaf wt x)"
  proof
    assume l: "length ts = 1"
    then obtain p where ts: "ts = [p]" by (cases ts) auto
    with rep obtain u where u: "tsA = [u]" "tree_at h p u" by (auto simp: list_all2_Cons1)
    from assms(3) ts leaf_tree_at[of h p] obtain n where
      "deref h p = Some n" "tree_at h p (Leaf (w n) (c n))" by auto
    moreover from assms(3) ts have "isleaf h p = Inr True" by simp
    ultimately have "\<exists>wt x. u = Leaf wt x" using u(2)
      by (auto simp: isleaf_def elim: tree_at.cases)
    with one l u show "\<exists>wt x. t = Leaf wt x" by simp
  qed
  from ml lv have m: "mset (leaves t) = mset (input_leaves h ts)" by simp
  from w wa have wt: "weights_add_up t" by simp
  have iw: "counts (input_leaves h ts) \<longrightarrow> int_weights_add_up t"
  proof
    assume "counts (input_leaves h ts)"
    with counts_mset[OF m] have "counts (leaves t)" by simp
    from weights_as_integers[OF wt this] show "int_weights_add_up t" by simp
  qed
  from m have "mset (map fst (leaves t)) = mset (map fst (input_leaves h ts))"
    by (metis mset_map)
  then have d: "distinct (map fst (input_leaves h ts)) \<longrightarrow>
      distinct (symbols t) \<and> set (symbols t) = set (map fst (input_leaves h ts))"
    unfolding symbols_def by (metis mset_eq_imp_distinct_iff mset_eq_setD)
  show ?thesis
    by (intro exI conjI) (fact hf rt single inner wt iw m d)+
qed

text \<open>C8 on the three leaves of \<open>"aaabbc"\<close>.\<close>

theorem huffman_invariants_witness:
  "\<exists>root h' t. huffman bump [32, 64, 96] abc_heap = Inr (root, h') \<and> tree_at h' root t \<and>
           (length [32, 64, 96 :: ptr] = 1 \<longrightarrow> (\<exists>wt x. t = Leaf wt x)) \<and>
           (2 \<le> length [32, 64, 96 :: ptr] \<longrightarrow> (\<exists>wt l r. t = Inner wt l r)) \<and>
           weights_add_up t \<and>
           (counts (input_leaves abc_heap [32, 64, 96]) \<longrightarrow> int_weights_add_up t) \<and>
           mset (leaves t) = mset (input_leaves abc_heap [32, 64, 96]) \<and>
           (distinct (map fst (input_leaves abc_heap [32, 64, 96])) \<longrightarrow>
              distinct (symbols t) \<and> set (symbols t) = set (map fst (input_leaves abc_heap [32, 64, 96])))"
  using huffman_invariants[of bump "[32, 64, 96]" abc_heap] bump_fresh abc_leaves
  by simp

text \<open>
  C9 fails on the input \<open>"aaa"\<close>. The pipeline builds a tree of one leaf and the code
  table gives \<open>a\<close> the empty bit-string, as claimed; but then the encoding of \<open>"aaa"\<close> is
  the empty bit-string, and decoding it gives the empty string, not \<open>"aaa"\<close>. (By
  \<open>single_leaf_pipeline\<close> above this is so for every input over one symbol and every
  allocator, and \<open>decode\<close> does not return on any other bit-string.)
\<close>

theorem single_symbol_lost:
  "nodes bump (freq ''aaa'') [] = ([32], aaa_heap) \<and>
   huffman bump [32] aaa_heap = Inr (32, aaa_heap) \<and>
   tree_at aaa_heap 32 (Leaf 3 CHR ''a'') \<and>
   codetable aaa_heap 32 = Some (Inr [CHR ''a'' \<mapsto> []]) \<and>
   encode [CHR ''a'' \<mapsto> []] ''aaa'' = [] \<and>
   decode aaa_heap 32 (encode [CHR ''a'' \<mapsto> []] ''aaa'') = Some (Inr []) \<and>
   decode aaa_heap 32 (encode [CHR ''a'' \<mapsto> []] ''aaa'') \<noteq> Some (Inr ''aaa'')"
proof -
  have nd: "nodes bump (freq ''aaa'') [] = ([32], aaa_heap)"
    by (simp add: nodes_def freq_def leaf_def new_Node_def bump_def aaa_heap_def)
  from single_leaf_pipeline[OF bump_fresh, of "''aaa''" "CHR ''a''" "[]"] nd
  show ?thesis by simp
qed

text \<open>
  C10. For every non-empty vector of pointers to leaves, whatever the allocator and the
  heap: (1) \<open>huffman\<close> returns; it has then run its loop \<open>length ts - 1\<close> times, the vector
  that remains holds one pointer, and that pointer is what it returns, with the heap of
  that moment; the pointer stands for a tree whose leaves are exactly the input leaves.
  (2) In every round \<open>k\<close> before that, the vector has \<open>length ts - k\<close> elements, at least
  two, all pointers to trees over the input leaves; the \<open>for\<close> loop moves two pointers
  \<open>b\<close> and \<open>a\<close> to the end of the vector, the round takes them out and appends one new
  node \<open>m\<close>, which is not in the heap before, has the children \<open>a\<close> and \<open>b\<close> and the sum
  of their weights, and is the only change of the heap; so the next vector is one shorter,
  and \<open>huffman\<close> returns what the loop still has to compute from it.
\<close>

theorem huffman_terminates:
  assumes "fresh alloc" and "ts \<noteq> []" and "\<forall>p\<in>set ts. isleaf h p = Inr True"
  shows "(\<exists>root h' t. huffman alloc ts h = Inr (root, h') \<and>
            rounds alloc ts h (length ts - 1) = Inr ([root], h') \<and>
            tree_at h' root t \<and> mset (leaves t) = mset (input_leaves h ts)) \<and>
         (\<forall>k<length ts - 1.
            \<exists>tsk hk tsAk xs a b na nb m.
              rounds alloc ts h k = Inr (tsk, hk) \<and> length tsk = length ts - k \<and>
              list_all2 (tree_at hk) tsk tsAk \<and> all_leaves tsAk = mset (input_leaves h ts) \<and>
              for_loop tsk (int (length tsk)) (int (length tsk) - 3) = Inr (xs @ [b, a]) \<and>
              mset tsk = mset xs + {#a, b#} \<and> deref hk a = Some na \<and> deref hk b = Some nb \<and>
              m \<notin> fst ` set hk \<and> m \<noteq> NULL \<and>
              rounds alloc ts h (Suc k) =
                Inr (xs @ [m], (m, \<lparr>w = w na + w nb, c = CHR 0x00, left = a, right = b\<rparr>) # hk) \<and>
              huffman alloc ts h =
                huffman alloc (xs @ [m])
                  ((m, \<lparr>w = w na + w nb, c = CHR 0x00, left = a, right = b\<rparr>) # hk))"
proof -
  from leaves_rep[OF assms(3)] obtain tsA where
    rep: "list_all2 (tree_at h) ts tsA" and lv: "all_leaves tsA = mset (input_leaves h ts)"
    by blast
  note inv = rounds_invariant[OF assms(1) rep]
  from assms(2) have "length ts - 1 < length ts" by (cases ts) auto
  from inv[OF this] obtain tsk hk tsAk where
    rk: "rounds alloc ts h (length ts - 1) = Inr (tsk, hk)" and
    lk: "length tsk = length ts - (length ts - 1)" and
    repk: "list_all2 (tree_at hk) tsk tsAk" and alk: "all_leaves tsAk = all_leaves tsA" and
    hk: "huffman alloc ts h = huffman alloc tsk hk" by blast
  from lk assms(2) have "length tsk = 1" by (cases ts) auto
  then obtain root where tsk: "tsk = [root]" by (cases tsk) auto
  with repk obtain t where tsAk: "tsAk = [t]" and rt: "tree_at hk root t"
    by (auto simp: list_all2_Cons1)
  have "huffman alloc [root] hk = Inr (root, hk)"
    by (simp add: huffman.simps[of alloc "[root]" hk])
  with hk tsk have hf: "huffman alloc ts h = Inr (root, hk)" by simp
  from alk lv tsAk have ml: "mset (leaves t) = mset (input_leaves h ts)"
    by (simp add: all_leaves_def)
  from hf rk[unfolded tsk] rt ml have 1:
    "\<exists>root h' t. huffman alloc ts h = Inr (root, h') \<and>
        rounds alloc ts h (length ts - 1) = Inr ([root], h') \<and>
        tree_at h' root t \<and> mset (leaves t) = mset (input_leaves h ts)" by blast
  have 2: "\<exists>tsk hk tsAk xs a b na nb m.
        rounds alloc ts h k = Inr (tsk, hk) \<and> length tsk = length ts - k \<and>
        list_all2 (tree_at hk) tsk tsAk \<and> all_leaves tsAk = mset (input_leaves h ts) \<and>
        for_loop tsk (int (length tsk)) (int (length tsk) - 3) = Inr (xs @ [b, a]) \<and>
        mset tsk = mset xs + {#a, b#} \<and> deref hk a = Some na \<and> deref hk b = Some nb \<and>
        m \<notin> fst ` set hk \<and> m \<noteq> NULL \<and>
        rounds alloc ts h (Suc k) =
          Inr (xs @ [m], (m, \<lparr>w = w na + w nb, c = CHR 0x00, left = a, right = b\<rparr>) # hk) \<and>
        huffman alloc ts h =
          huffman alloc (xs @ [m])
            ((m, \<lparr>w = w na + w nb, c = CHR 0x00, left = a, right = b\<rparr>) # hk)"
    if k: "k < length ts - 1" for k
  proof -
    from k have "k < length ts" by simp
    from inv[OF this] obtain tsk hk tsAk where
      rk: "rounds alloc ts h k = Inr (tsk, hk)" and lk: "length tsk = length ts - k" and
      repk: "list_all2 (tree_at hk) tsk tsAk" and alk: "all_leaves tsAk = all_leaves tsA" and
      hk: "huffman alloc ts h = huffman alloc tsk hk" by blast
    from k lk have "2 \<le> length tsk" by simp
    from huffman_round[OF assms(1) this repk] obtain xs a b na nb m where
      fl: "for_loop tsk (int (length tsk)) (int (length tsk) - 3) = Inr (xs @ [b, a])" and
      ms: "mset tsk = mset xs + {#a, b#}" and na: "deref hk a = Some na" and
      nb: "deref hk b = Some nb" and nin: "m \<notin> fst ` set hk" and nn: "m \<noteq> NULL" and
      body: "huffman_body alloc tsk hk =
        Inr (xs @ [m], (m, \<lparr>w = w na + w nb, c = CHR 0x00, left = a, right = b\<rparr>) # hk)" and
      hf: "huffman alloc tsk hk =
        huffman alloc (xs @ [m]) ((m, \<lparr>w = w na + w nb, c = CHR 0x00, left = a, right = b\<rparr>) # hk)"
      by blast
    from rk body have rs: "rounds alloc ts h (Suc k) =
        Inr (xs @ [m], (m, \<lparr>w = w na + w nb, c = CHR 0x00, left = a, right = b\<rparr>) # hk)" by simp
    from alk lv have al: "all_leaves tsAk = mset (input_leaves h ts)" by simp
    from hk hf have hh: "huffman alloc ts h =
        huffman alloc (xs @ [m]) ((m, \<lparr>w = w na + w nb, c = CHR 0x00, left = a, right = b\<rparr>) # hk)"
      by simp
    show ?thesis
      by (intro exI conjI) (fact rk lk repk al fl ms na nb nin nn rs hh)+
  qed
  from 1 2 show ?thesis by blast
qed

text \<open>
  C10 on the three leaves of \<open>"aaabbc"\<close>: two rounds, the second one starting from the
  vector and the heap the first one leaves.
\<close>

theorem huffman_terminates_witness:
  "huffman bump [32, 64, 96] abc_heap = Inr (160, abc_final) \<and>
   rounds bump [32, 64, 96] abc_heap (length [32, 64, 96 :: ptr] - 1) = Inr ([160], abc_final) \<and>
   (\<exists>t. tree_at abc_final 160 t \<and>
      mset (leaves t) = mset (input_leaves abc_heap [32, 64, 96])) \<and>
   (\<exists>tsk hk tsAk xs a b na nb m.
      rounds bump [32, 64, 96] abc_heap 1 = Inr (tsk, hk) \<and>
      length tsk = length [32, 64, 96 :: ptr] - 1 \<and>
      list_all2 (tree_at hk) tsk tsAk \<and>
      all_leaves tsAk = mset (input_leaves abc_heap [32, 64, 96]) \<and>
      for_loop tsk (int (length tsk)) (int (length tsk) - 3) = Inr (xs @ [b, a]) \<and>
      mset tsk = mset xs + {#a, b#} \<and> deref hk a = Some na \<and> deref hk b = Some nb \<and>
      m \<notin> fst ` set hk \<and> m \<noteq> NULL \<and>
      rounds bump [32, 64, 96] abc_heap (Suc 1) =
        Inr (xs @ [m], (m, \<lparr>w = w na + w nb, c = CHR 0x00, left = a, right = b\<rparr>) # hk) \<and>
      huffman bump [32, 64, 96] abc_heap =
        huffman bump (xs @ [m])
          ((m, \<lparr>w = w na + w nb, c = CHR 0x00, left = a, right = b\<rparr>) # hk))"
proof -
  have ne: "[32, 64, 96 :: ptr] \<noteq> []" by simp
  note th = huffman_terminates[OF bump_fresh ne abc_leaves]
  from th obtain root h' t where
    hf: "huffman bump [32, 64, 96] abc_heap = Inr (root, h')" and
    rs: "rounds bump [32, 64, 96] abc_heap (length [32, 64, 96 :: ptr] - 1) = Inr ([root], h')" and
    rt: "tree_at h' root t" and
    ml: "mset (leaves t) = mset (input_leaves abc_heap [32, 64, 96])" by blast
  from hf huffman_abc have eq: "root = 160" "h' = abc_final" by simp_all
  have k: "(1 :: nat) < length [32, 64, 96 :: ptr] - 1" by simp
  from th have "\<forall>k<length [32, 64, 96 :: ptr] - 1.
            \<exists>tsk hk tsAk xs a b na nb m.
              rounds bump [32, 64, 96] abc_heap k = Inr (tsk, hk) \<and>
              length tsk = length [32, 64, 96 :: ptr] - k \<and>
              list_all2 (tree_at hk) tsk tsAk \<and>
              all_leaves tsAk = mset (input_leaves abc_heap [32, 64, 96]) \<and>
              for_loop tsk (int (length tsk)) (int (length tsk) - 3) = Inr (xs @ [b, a]) \<and>
              mset tsk = mset xs + {#a, b#} \<and> deref hk a = Some na \<and> deref hk b = Some nb \<and>
              m \<notin> fst ` set hk \<and> m \<noteq> NULL \<and>
              rounds bump [32, 64, 96] abc_heap (Suc k) =
                Inr (xs @ [m], (m, \<lparr>w = w na + w nb, c = CHR 0x00, left = a, right = b\<rparr>) # hk) \<and>
              huffman bump [32, 64, 96] abc_heap =
                huffman bump (xs @ [m])
                  ((m, \<lparr>w = w na + w nb, c = CHR 0x00, left = a, right = b\<rparr>) # hk)"
    by (rule conjunct2)
  from this[rule_format, OF k] hf[unfolded eq] rs[unfolded eq] rt[unfolded eq] ml
  show ?thesis by (intro conjI exI[of _ t]) assumption+
qed

end
